theory Spec2Isabelle
  imports
    Main
    "HOL-Library.Multiset"
    "HOL-Library.List_Lexorder"
    "HOL-Library.Char_ord"
    "HOL-Library.AList"
begin

section \<open>Python values used by \<^verbatim>\<open>util/classes.py\<close>\<close>

text \<open>
  The exceptions that the modelled code paths can raise. A function that can raise
  returns \<open>py_error + 'a\<close>, with \<open>Inl\<close> the exception; Python's \<open>None\<close> is
  \<open>None\<close> of an option type.
\<close>

datatype py_error =
    IndexError
  | KeyError
  | AttributeError
  | TypeError
  | JSONDecodeError
  | RecursionError
  | ValueError

definition dquote :: char where
  "dquote = CHR 0x22"

definition backslash :: char where
  "backslash = CHR 0x5C"

subsection \<open>\<^verbatim>\<open>str\<close> methods\<close>

text \<open>\<^verbatim>\<open>s.startswith(p)\<close>.\<close>

definition startswith :: "string \<Rightarrow> string \<Rightarrow> bool" where
  "startswith s p \<longleftrightarrow> take (length p) s = p"

text \<open>
  \<^verbatim>\<open>s.replace(old, new)\<close>: every non-overlapping occurrence of \<open>old\<close>, found from
  the left, becomes \<open>new\<close>. With an empty \<open>old\<close> Python puts \<open>new\<close> before every
  character and at the end.
\<close>

function replace :: "string \<Rightarrow> string \<Rightarrow> string \<Rightarrow> string" where
  "replace [] old new = (if old = [] then new else [])"
| "replace (c # cs) old new =
     (if old = [] then new @ c # replace cs old new
      else if startswith (c # cs) old then new @ replace (drop (length old) (c # cs)) old new
      else c # replace cs old new)"
  by pat_completeness auto
termination
  by (relation "measure (\<lambda>(s, old, new). length s)") auto

text \<open>
  \<^verbatim>\<open>s.split(sep)\<close> for a non-empty separator (both separators of the program are
  non-empty literals; Python raises \<^verbatim>\<open>ValueError\<close> on an empty one). \<open>cur\<close> is the
  field being read. The result always has at least one field.
\<close>

function split_from :: "string \<Rightarrow> string \<Rightarrow> string \<Rightarrow> string list" where
  "split_from cur [] sep = [cur]"
| "split_from cur (c # cs) sep =
     (if sep \<noteq> [] \<and> startswith (c # cs) sep
      then cur # split_from [] (drop (length sep) (c # cs)) sep
      else split_from (cur @ [c]) cs sep)"
  by pat_completeness auto
termination
  by (relation "measure (\<lambda>(cur, s, sep). length s)") auto

definition split :: "string \<Rightarrow> string \<Rightarrow> string list" where
  "split s sep = split_from [] s sep"

text \<open>\<^verbatim>\<open>sub in s\<close> for strings.\<close>

fun is_in :: "string \<Rightarrow> string \<Rightarrow> bool" where
  "is_in sub [] \<longleftrightarrow> sub = []"
| "is_in sub (c # cs) \<longleftrightarrow> startswith (c # cs) sub \<or> is_in sub cs"

section \<open>The text normalizer \<^verbatim>\<open>__remove_double_quotes\<close>\<close>

text \<open>
  Lines 261-269, statement by statement: five replacements into placeholder words, the
  removal of every double quote that is left, the five replacements back (the third one
  to a separator with two spaces on each side of the colon), and the replacement of
  every backslash by \<^verbatim>\<open>#\<close>.
\<close>

definition remove_double_quotes :: "string \<Rightarrow> string" where
  \<open>remove_double_quotes data =
     (let str_data = replace (replace data ''{"'' ''vikr'') ''","'' ''sandep'';
          str_data = replace (replace (replace str_data ''" : "'' ''arun'') ''":"'' ''bindhu'')
                       ''"}'' ''gauth'';
          str_data = replace str_data ''"'' ''''
      in replace
           (replace
             (replace
               (replace
                 (replace (replace str_data ''vikr'' ''{"'') ''sandep'' ''","'')
                 ''arun'' ''"  :  "'')
               ''bindhu'' ''":"'')
             ''gauth'' ''"}'')
           [backslash] ''#'')\<close>

text \<open>
  The same function as the specification words it: a table of (sequence, placeholder,
  restored sequence), folded over the text twice, with the stripping of quotes in
  between and the backslash sentinel at the end.
\<close>

definition placeholder_table :: "(string \<times> string \<times> string) list" where
  \<open>placeholder_table =
     [(''{"'', ''vikr'', ''{"''),
      (''","'', ''sandep'', ''","''),
      (''" : "'', ''arun'', ''"  :  "''),
      (''":"'', ''bindhu'', ''":"''),
      (''"}'', ''gauth'', ''"}'')]\<close>

definition to_placeholders :: "string \<Rightarrow> string" where
  "to_placeholders raw = foldl (\<lambda>s (sq, tok, back). replace s sq tok) raw placeholder_table"

definition strip_quotes :: "string \<Rightarrow> string" where
  "strip_quotes s = filter (\<lambda>c. c \<noteq> dquote) s"

definition from_placeholders :: "string \<Rightarrow> string" where
  "from_placeholders s = foldl (\<lambda>s (sq, tok, back). replace s tok back) s placeholder_table"

definition backslash_to_hash :: "string \<Rightarrow> string" where
  "backslash_to_hash s = map (\<lambda>c. if c = backslash then CHR ''#'' else c) s"

definition normalize_spec :: "string \<Rightarrow> string" where
  "normalize_spec raw = backslash_to_hash (from_placeholders (strip_quotes (to_placeholders raw)))"

section \<open>The marker difference of \<^verbatim>\<open>get_configs_difference\<close> (line 295)\<close>

text \<open>
  \<^verbatim>\<open>np.setdiff1d\<close> on two lists of strings. Each list becomes an array of cells of one
  width, a shorter string padded with NUL characters, and a cell is read back without
  its trailing NUL characters: a string loses the NUL characters at its end.
  \<^verbatim>\<open>np.unique\<close> sorts and removes duplicates; \<^verbatim>\<open>np.setdiff1d(ar1, ar2)\<close> makes both
  arrays unique and keeps the values of the first that are not in the second.
  Strings are ordered by code point, lexicographically.
\<close>

definition np_str :: "string \<Rightarrow> string" where
  "np_str s = rev (dropWhile (\<lambda>c. c = CHR 0x00) (rev s))"

definition asarray :: "string list \<Rightarrow> string list" where
  "asarray ar = map np_str ar"

definition unique :: "'a::linorder list \<Rightarrow> 'a list" where
  "unique ar = sort (remdups ar)"

definition setdiff1d :: "string list \<Rightarrow> string list \<Rightarrow> string list" where
  "setdiff1d ar1 ar2 =
     (let ar1 = unique (asarray ar1); ar2 = unique (asarray ar2)
      in filter (\<lambda>x. x \<notin> set ar2) ar1)"

definition need_to_be_updated :: "string list \<Rightarrow> string list \<Rightarrow> string list" where
  "need_to_be_updated errors_conf errors_configs = setdiff1d errors_conf errors_configs"

section \<open>The online-device finder \<^verbatim>\<open>find_online_device\<close> (lines 207-236)\<close>

text \<open>
  \<^verbatim>\<open>random.shuffle(x)\<close> is the Fisher-Yates loop
  \<^verbatim>\<open>for i in reversed(range(1, len(x))): j = randbelow(i + 1); x[i], x[j] = x[j], x[i]\<close>.
  The generator is a parameter: \<open>randbelow n\<close> is the draw made for the bound \<open>n\<close>
  (each bound is used once), reduced into the range \<open>0..<n\<close> that Python guarantees.
\<close>

fun shuffle_from :: "(nat \<Rightarrow> nat) \<Rightarrow> nat \<Rightarrow> 'a list \<Rightarrow> 'a list" where
  "shuffle_from randbelow 0 x = x"
| "shuffle_from randbelow (Suc k) x =
     (let i = Suc k; j = randbelow (i + 1) mod (i + 1)
      in shuffle_from randbelow k (x[i := x ! j, j := x ! i]))"

definition shuffle :: "(nat \<Rightarrow> nat) \<Rightarrow> 'a list \<Rightarrow> 'a list" where
  "shuffle randbelow x = shuffle_from randbelow (length x - 1) x"

text \<open>
  The \<^verbatim>\<open>while found_one == False\<close> loop. \<^verbatim>\<open>macs.pop()\<close> takes the last element and
  raises \<^verbatim>\<open>IndexError\<close> on an empty list. The liveness check and the resolution of an
  IP address belong to the device directory client and are parameters. When a live
  device is found and the device type is none of the five known ones, no branch
  returns, the loop condition fails and the method returns \<^verbatim>\<open>None\<close>.
\<close>

function find_online_loop ::
  "(string \<Rightarrow> bool) \<Rightarrow> (string \<Rightarrow> string \<Rightarrow> string) \<Rightarrow> string \<Rightarrow> string list
     \<Rightarrow> py_error + string option" where
  "find_online_loop router_is_online ip_from_mac device_type macs =
     (if macs = [] then Inl IndexError
      else
        let mac = last macs; macs = butlast macs; found_one = router_is_online mac in
        if found_one then
          if device_type = ''XI5'' then Inr (Some mac)
          else if device_type \<in> set [''XB3'', ''XB6'', ''XF3'', ''XG'']
            then Inr (Some (ip_from_mac mac device_type))
          else Inr None
        else find_online_loop router_is_online ip_from_mac device_type macs)"
  by pat_completeness auto
termination
  by (relation "measure (\<lambda>(online, ip, dt, macs). length macs)") auto

declare find_online_loop.simps [simp del]

text \<open>
  The method: the lines of the local file of MAC addresses, shuffled, then the loop.
\<close>

definition find_online_device ::
  "(nat \<Rightarrow> nat) \<Rightarrow> (string \<Rightarrow> bool) \<Rightarrow> (string \<Rightarrow> string \<Rightarrow> string) \<Rightarrow> string \<Rightarrow> string list
     \<Rightarrow> py_error + string option" where
  "find_online_device randbelow router_is_online ip_from_mac device_type file_lines =
     (let macs = shuffle randbelow file_lines
      in find_online_loop router_is_online ip_from_mac device_type macs)"

section \<open>\<^verbatim>\<open>json.loads\<close>\<close>

text \<open>
  The decoder of Python's standard library, as its scanner reads a \<^verbatim>\<open>str\<close>: the values
  of JSON and the three constants \<^verbatim>\<open>NaN\<close>, \<^verbatim>\<open>Infinity\<close> and \<^verbatim>\<open>-Infinity\<close> that Python
  accepts. The text of the program is a \<open>string\<close> (code points below 256); a decoded
  string is a list of code points, since \<^verbatim>\<open>\uXXXX\<close> escapes reach beyond that range.
  An integer literal becomes an \<open>int\<close>, unless it has more digits than the interpreter
  converts (\<^verbatim>\<open>ValueError\<close>); a literal with a fraction or an exponent is kept as its
  text (floating point is not modelled). An object becomes a dictionary: a repeated
  key keeps its first position and takes the last value.
\<close>

type_synonym unicode = "nat list"

datatype json =
    JNone
  | JBool bool
  | JInt int
  | JFloat string
  | JStr unicode
  | JList "json list"
  | JDict "(unicode \<times> json) list"

text \<open>Whitespace between tokens: space, tab, line feed, carriage return.\<close>

definition is_ws :: "char \<Rightarrow> bool" where
  "is_ws c \<longleftrightarrow> c = CHR '' '' \<or> c = CHR 0x09 \<or> c = CHR 0x0A \<or> c = CHR 0x0D"

definition skip_ws :: "string \<Rightarrow> string" where
  "skip_ws s = dropWhile is_ws s"

definition is_digit :: "char \<Rightarrow> bool" where
  "is_digit c \<longleftrightarrow> (48::nat) \<le> of_char c \<and> of_char c \<le> (57::nat)"

text \<open>
  String literals, read after the opening quote: up to the closing quote, with the
  escapes of \<^verbatim>\<open>BACKSLASH\<close>, four hexadecimal digits after \<^verbatim>\<open>\u\<close> (a high surrogate
  followed by an escaped low surrogate is one code point), and no control character
  (the decoder is strict by default).
\<close>

definition hex_val :: "char \<Rightarrow> nat option" where
  "hex_val c =
     (let n = of_char c :: nat in
      if 48 \<le> n \<and> n \<le> 57 then Some (n - 48)
      else if 97 \<le> n \<and> n \<le> 102 then Some (n - 87)
      else if 65 \<le> n \<and> n \<le> 70 then Some (n - 55)
      else None)"

definition decode_uXXXX :: "string \<Rightarrow> nat option" where
  "decode_uXXXX s =
     (case map hex_val (take 4 s) of
        [Some a, Some b, Some c, Some d] \<Rightarrow> Some (((a * 16 + b) * 16 + c) * 16 + d)
      | _ \<Rightarrow> None)"

definition backslash_escape :: "char \<Rightarrow> nat option" where
  "backslash_escape c =
     (if c = dquote then Some 0x22
      else if c = backslash then Some 0x5C
      else if c = CHR ''/'' then Some 0x2F
      else if c = CHR ''b'' then Some 0x08
      else if c = CHR ''f'' then Some 0x0C
      else if c = CHR ''n'' then Some 0x0A
      else if c = CHR ''r'' then Some 0x0D
      else if c = CHR ''t'' then Some 0x09
      else None)"

definition append_char :: "nat \<Rightarrow> py_error + unicode \<times> string \<Rightarrow> py_error + unicode \<times> string" where
  "append_char ch r = (case r of Inl e \<Rightarrow> Inl e | Inr (chunks, rest) \<Rightarrow> Inr (ch # chunks, rest))"

function scanstring :: "string \<Rightarrow> py_error + unicode \<times> string" where
  "scanstring [] = Inl JSONDecodeError"
| "scanstring (c # cs) =
     (if c = dquote then Inr ([], cs)
      else if c = backslash then
        (case cs of
           [] \<Rightarrow> Inl JSONDecodeError
         | esc # rest \<Rightarrow>
             if esc \<noteq> CHR ''u'' then
               (case backslash_escape esc of
                  None \<Rightarrow> Inl JSONDecodeError
                | Some ch \<Rightarrow> append_char ch (scanstring rest))
             else
               (case decode_uXXXX rest of
                  None \<Rightarrow> Inl JSONDecodeError
                | Some uni \<Rightarrow>
                    if 0xD800 \<le> uni \<and> uni \<le> 0xDBFF \<and> take 2 (drop 4 rest) = [backslash, CHR ''u'']
                    then
                      (case decode_uXXXX (drop 6 rest) of
                         None \<Rightarrow> Inl JSONDecodeError
                       | Some uni2 \<Rightarrow>
                           if 0xDC00 \<le> uni2 \<and> uni2 \<le> 0xDFFF
                           then append_char (0x10000 + ((uni - 0xD800) * 1024 + (uni2 - 0xDC00)))
                                  (scanstring (drop 10 rest))
                           else append_char uni (scanstring (drop 4 rest)))
                    else append_char uni (scanstring (drop 4 rest))))
      else if (of_char c :: nat) < 0x20 then Inl JSONDecodeError
      else append_char (of_char c) (scanstring cs))"
  by pat_completeness auto
termination
  by (relation "measure length") auto

text \<open>
  Numbers: an optional minus sign, \<^verbatim>\<open>0\<close> or a digit sequence without leading zero, a
  fraction only when a digit follows the point, an exponent only when a digit follows
  the \<^verbatim>\<open>e\<close> and its optional sign.
\<close>

definition int_of_digits :: "string \<Rightarrow> int" where
  "int_of_digits ds = foldl (\<lambda>a c. 10 * a + int (of_char c - 48)) 0 ds"

definition number_sign :: "string \<Rightarrow> string" where
  "number_sign s = (if startswith s ''-'' then ''-'' else [])"

definition number_integer :: "string \<Rightarrow> string" where
  "number_integer s = (if startswith s ''0'' then ''0'' else takeWhile is_digit s)"

definition number_frac :: "string \<Rightarrow> string" where
  "number_frac s =
     (case s of
        c # d # cs \<Rightarrow> if c = CHR ''.'' \<and> is_digit d then c # takeWhile is_digit (d # cs) else []
      | _ \<Rightarrow> [])"

definition number_exp :: "string \<Rightarrow> string" where
  "number_exp s =
     (case s of
        c # cs \<Rightarrow>
          if c = CHR ''e'' \<or> c = CHR ''E'' then
            (let sgn = (if startswith cs ''-'' \<or> startswith cs ''+'' then take 1 cs else []);
                 digits = takeWhile is_digit (drop (length sgn) cs)
             in if digits = [] then [] else c # sgn @ digits)
          else []
      | [] \<Rightarrow> [])"

text \<open>
  The default of \<^verbatim>\<open>sys.get_int_max_str_digits()\<close>: the conversion of a longer decimal
  literal to an integer raises \<^verbatim>\<open>ValueError\<close>.
\<close>

definition max_str_digits :: nat where
  "max_str_digits = 4300"

definition match_number :: "string \<Rightarrow> py_error + json \<times> string" where
  "match_number s =
     (let sign = number_sign s;
          s1 = drop (length sign) s;
          integer = number_integer s1;
          s2 = drop (length integer) s1;
          frac = number_frac s2;
          s3 = drop (length frac) s2;
          exp = number_exp s3;
          s4 = drop (length exp) s3
      in if integer = [] then Inl JSONDecodeError
         else if frac = [] \<and> exp = [] then
           (if max_str_digits < length integer then Inl ValueError
            else Inr (JInt (if sign = [] then int_of_digits integer else - int_of_digits integer), s4))
         else Inr (JFloat (sign @ integer @ frac @ exp), s4))"

text \<open>
  The values that are no string and no container, as \<^verbatim>\<open>scan_once\<close> tries them in turn:
  the constants and, last, a number.
\<close>

definition scan_constant :: "string \<Rightarrow> py_error + json \<times> string" where
  "scan_constant s =
     (if startswith s ''null'' then Inr (JNone, drop 4 s)
      else if startswith s ''true'' then Inr (JBool True, drop 4 s)
      else if startswith s ''false'' then Inr (JBool False, drop 5 s)
      else if startswith s ''NaN'' then Inr (JFloat ''NaN'', drop 3 s)
      else if startswith s ''Infinity'' then Inr (JFloat ''Infinity'', drop 8 s)
      else if startswith s ''-Infinity'' then Inr (JFloat ''-Infinity'', drop 9 s)
      else match_number s)"

text \<open>
  \<^verbatim>\<open>scan_once\<close> with the object and array loops. \<open>limit\<close> is the number of nested
  containers the interpreter still allows: the scanner enters a recursive call for
  every object and array it opens, before it looks inside, and Python raises
  \<^verbatim>\<open>RecursionError\<close> when its recursion limit is reached. The first argument \<open>fuel\<close>
  only makes the recursion structural: \<open>json_loads\<close> gives enough of it, any larger
  amount gives the same result (lemma \<open>scan_once_fuel\<close>), and under a limit of the length
  of the text no \<^verbatim>\<open>RecursionError\<close> is left (lemma \<open>json_loads_no_RecursionError\<close>):
  a \<^verbatim>\<open>RecursionError\<close> of \<open>json_loads\<close> always comes from \<open>limit\<close>. The loops are
  entered after the opening bracket and the whitespace behind it.
\<close>

function (sequential) scan_once :: "nat \<Rightarrow> nat \<Rightarrow> string \<Rightarrow> py_error + json \<times> string"
  and parse_object ::
    "nat \<Rightarrow> nat \<Rightarrow> (unicode \<times> json) list \<Rightarrow> string \<Rightarrow> py_error + json \<times> string"
  and parse_array :: "nat \<Rightarrow> nat \<Rightarrow> json list \<Rightarrow> string \<Rightarrow> py_error + json \<times> string"
where
  "scan_once 0 limit s = Inl RecursionError"
| "scan_once (Suc fuel) limit [] = Inl JSONDecodeError"
| "scan_once (Suc fuel) limit (c # cs) =
     (if c = dquote then
        (case scanstring cs of Inl e \<Rightarrow> Inl e | Inr (str, rest) \<Rightarrow> Inr (JStr str, rest))
      else if c = CHR ''{'' then
        (if limit = 0 then Inl RecursionError
         else if startswith (skip_ws cs) ''}'' then Inr (JDict [], tl (skip_ws cs))
         else parse_object fuel (limit - 1) [] (skip_ws cs))
      else if c = CHR ''['' then
        (if limit = 0 then Inl RecursionError
         else if startswith (skip_ws cs) '']'' then Inr (JList [], tl (skip_ws cs))
         else parse_array fuel (limit - 1) [] (skip_ws cs))
      else scan_constant (c # cs))"
| "parse_object 0 limit pairs s = Inl RecursionError"
| "parse_object (Suc fuel) limit pairs s =
     (if \<not> startswith s [dquote] then Inl JSONDecodeError
      else
        case scanstring (tl s) of
          Inl e \<Rightarrow> Inl e
        | Inr (key, rest) \<Rightarrow>
            if \<not> startswith (skip_ws rest) '':'' then Inl JSONDecodeError
            else
              case scan_once fuel limit (skip_ws (tl (skip_ws rest))) of
                Inl e \<Rightarrow> Inl e
              | Inr (val, rest) \<Rightarrow>
                  let pairs = AList.update key val pairs in
                  if startswith (skip_ws rest) ''}'' then Inr (JDict pairs, tl (skip_ws rest))
                  else if startswith (skip_ws rest) '',''
                    then parse_object fuel limit pairs (skip_ws (tl (skip_ws rest)))
                  else Inl JSONDecodeError)"
| "parse_array 0 limit vals s = Inl RecursionError"
| "parse_array (Suc fuel) limit vals s =
     (case scan_once fuel limit s of
        Inl e \<Rightarrow> Inl e
      | Inr (val, rest) \<Rightarrow>
          let vals = vals @ [val] in
          if startswith (skip_ws rest) '']'' then Inr (JList vals, tl (skip_ws rest))
          else if startswith (skip_ws rest) '',''
            then parse_array fuel limit vals (skip_ws (tl (skip_ws rest)))
          else Inl JSONDecodeError)"
  by pat_completeness auto
termination
  by (relation "measure (\<lambda>x. case x of
        Inl (fuel, limit, s) \<Rightarrow> fuel
      | Inr (Inl (fuel, limit, pairs, s)) \<Rightarrow> fuel
      | Inr (Inr (fuel, limit, vals, s)) \<Rightarrow> fuel)") auto

text \<open>
  \<^verbatim>\<open>json.loads(s)\<close> under a recursion limit: leading whitespace, one value, trailing
  whitespace, and nothing else.
\<close>

definition json_loads :: "nat \<Rightarrow> string \<Rightarrow> py_error + json" where
  "json_loads limit s =
     (case scan_once (2 * length s + 2) limit (skip_ws s) of
        Inl e \<Rightarrow> Inl e
      | Inr (obj, rest) \<Rightarrow> if skip_ws rest = [] then Inr obj else Inl JSONDecodeError)"

section \<open>The extractor \<^verbatim>\<open>parse_configs\<close> (lines 259-287)\<close>

text \<open>\<^verbatim>\<open>xs[i]\<close> for an index from 0: \<^verbatim>\<open>IndexError\<close> out of range.\<close>

definition list_get :: "'a list \<Rightarrow> nat \<Rightarrow> py_error + 'a" where
  "list_get xs i = (if i < length xs then Inr (xs ! i) else Inl IndexError)"

text \<open>
  Lines 275-282, for one line that holds the sentinel: the second field of the split on
  the key marker (\<^verbatim>\<open>data_string[1]\<close>), of it the first field of the split on the
  trailing marker (\<^verbatim>\<open>data_string[0]\<close>), then the branch on the device type. For a
  device type outside the five, \<^verbatim>\<open>parse_data\<close> stays the empty string.
\<close>

definition parse_data_of :: "string \<Rightarrow> string \<Rightarrow> py_error + string" where
  \<open>parse_data_of device_type line =
     (let data_string = split line ''telemetryProfile":'' in
      case list_get data_string 1 of
        Inl e \<Rightarrow> Inl e
      | Inr field \<Rightarrow>
          let data_string = split field '',"schedule":"'' in
          if device_type \<in> set [''XB3'', ''XB6'', ''XF3''] then
            (case list_get data_string 0 of
               Inl e \<Rightarrow> Inl e
             | Inr payload \<Rightarrow> Inr (replace payload ''"cid":"0"'' ''cid:0''))
          else if device_type = ''XG'' \<or> device_type = ''XI5'' then
            (case list_get data_string 0 of
               Inl e \<Rightarrow> Inl e
             | Inr payload \<Rightarrow> Inr (remove_double_quotes payload))
          else Inr '''')\<close>

text \<open>
  The loop over the lines of the file, under the recursion limit left to
  \<^verbatim>\<open>json.loads\<close>. The result is paired with the exceptions passed
  to \<^verbatim>\<open>logging.info\<close>, oldest first. A line with the sentinel whose payload parses ends
  the loop with the parsed value; when \<^verbatim>\<open>json.loads\<close> raises, the handler logs the
  exception and the loop goes on with the next line; after the last line the function
  returns \<^verbatim>\<open>None\<close>. An \<^verbatim>\<open>IndexError\<close> of \<^verbatim>\<open>data_string[1]\<close> is outside the
  \<^verbatim>\<open>try\<close> and leaves the function.
\<close>

definition logged :: "py_error \<Rightarrow> 'a \<times> py_error list \<Rightarrow> 'a \<times> py_error list" where
  "logged e r = (fst r, e # snd r)"

fun parse_configs ::
  "nat \<Rightarrow> string \<Rightarrow> string list \<Rightarrow> (py_error + json option) \<times> py_error list" where
  "parse_configs limit device_type [] = (Inr None, [])"
| "parse_configs limit device_type (line # content) =
     (if is_in ''urn:settings:TelemetryProfile'' line then
        case parse_data_of device_type line of
          Inl e \<Rightarrow> (Inl e, [])
        | Inr parse_data \<Rightarrow>
            (case json_loads limit parse_data of
               Inr jsn_data \<Rightarrow> (Inr (Some jsn_data), [])
             | Inl e \<Rightarrow> logged e (parse_configs limit device_type content))
      else parse_configs limit device_type content)"

section \<open>The classes \<^verbatim>\<open>Product\<close> and \<^verbatim>\<open>Device\<close>\<close>

text \<open>Sequencing of statements that can raise: the first exception ends the method.\<close>

definition and_then :: "py_error + 'a \<Rightarrow> ('a \<Rightarrow> py_error + 'b) \<Rightarrow> py_error + 'b" where
  "and_then r f = (case r of Inl e \<Rightarrow> Inl e | Inr x \<Rightarrow> f x)"

text \<open>
  Attribute values and the entries of the tables of \<^verbatim>\<open>static.static\<close>: strings, nested
  dictionaries with string keys, and functions (by name). \<^verbatim>\<open>d[k]\<close> raises
  \<^verbatim>\<open>KeyError\<close> for a missing key and \<^verbatim>\<open>TypeError\<close> when \<open>d\<close> is no dictionary or
  \<open>k\<close> no string.
\<close>

datatype pyval =
    PyStr string
  | PyDict "(string \<times> pyval) list"
  | PyFunction string

fun getitem :: "pyval \<Rightarrow> pyval \<Rightarrow> py_error + pyval" where
  "getitem (PyDict items) (PyStr k) = (case map_of items k of None \<Rightarrow> Inl KeyError | Some v \<Rightarrow> Inr v)"
| "getitem d k = Inl TypeError"

text \<open>
  An object is its attribute dictionary. The namespaces of the two classes hold the
  names their bodies define (\<^verbatim>\<open>util/classes.py\<close> lines 15-84 and 87-356); a name with
  two leading underscores inside a class body is stored with the class name in front.
  \<open>getattr self name\<close> is \<^verbatim>\<open>self.name\<close>: the object's dictionary, then \<^verbatim>\<open>Device\<close>, then
  \<^verbatim>\<open>Product\<close>, and \<^verbatim>\<open>AttributeError\<close> when none has the name.
\<close>

type_synonym py_object = "string \<rightharpoonup> pyval"

definition Product_namespace :: "(string \<times> pyval) list" where
  "Product_namespace =
     [(''__init__'', PyFunction ''Product.__init__''),
      (''get_product_type'', PyFunction ''Product.get_product_type''),
      (''get_email_sender'', PyFunction ''Product.get_email_sender''),
      (''get_email_subject'', PyFunction ''Product.get_email_subject''),
      (''get_recipient_list'', PyFunction ''Product.get_recipient_list'')]"

definition Device_namespace :: "(string \<times> pyval) list" where
  "Device_namespace =
     [(''_Device__local_macs_path'',
         PyStr ''/home/mhealy066/scripts/TelemetryProject/static/device_addresses/{}.txt''),
      (''__init__'', PyFunction ''Device.__init__''),
      (''get_device_type'', PyFunction ''Device.get_device_type''),
      (''get_splunk_macs_query'', PyFunction ''Device.get_splunk_macs_query''),
      (''get_splunk_daily_percents_query'', PyFunction ''Device.get_splunk_daily_percents_query''),
      (''get_logpath'', PyFunction ''Device.get_logpath''),
      (''get_command'', PyFunction ''Device.get_command''),
      (''find_online_device'', PyFunction ''Device.find_online_device''),
      (''get_conf_error_df'', PyFunction ''Device.get_conf_error_df''),
      (''get_configs_difference'', PyFunction ''Device.get_configs_difference''),
      (''write_macs_to_local_file'', PyFunction ''Device.write_macs_to_local_file''),
      (''get_macs'', PyFunction ''Device.get_macs''),
      (''get_daily_errors'', PyFunction ''Device.get_daily_errors'')]"

definition getattr :: "py_object \<Rightarrow> string \<Rightarrow> py_error + pyval" where
  "getattr self name =
     (case self name of
        Some v \<Rightarrow> Inr v
      | None \<Rightarrow>
          (case map_of Device_namespace name of
             Some v \<Rightarrow> Inr v
           | None \<Rightarrow>
               (case map_of Product_namespace name of
                  Some v \<Rightarrow> Inr v
                | None \<Rightarrow> Inl AttributeError)))"

text \<open>
  The constructors (lines 42-52 and 143-160). \<^verbatim>\<open>device_types\<close> and \<^verbatim>\<open>device_dict\<close> are
  the tables of \<^verbatim>\<open>static.static\<close>, which is not part of the sources and is taken as a
  parameter; a product type is a string.
\<close>

definition Product_init :: "pyval \<Rightarrow> py_object \<Rightarrow> string \<Rightarrow> py_error + py_object" where
  "Product_init device_dict self product_type =
     (let self = self(''_Product__product_type'' \<mapsto> PyStr product_type);
          self = self(''_Product__email_sender'' \<mapsto> PyStr ''MarkerAlert@comcast.com'');
          self = self(''_Product__email_subject'' \<mapsto>
                   PyStr (''Missing Mandatory Markers on '' @ product_type))
      in and_then (getitem device_dict (PyStr product_type)) (\<lambda>recipients.
           Inr (self(''_Product__recipient_list'' \<mapsto> recipients))))"

definition get_product_type :: "py_object \<Rightarrow> py_error + pyval" where
  "get_product_type self = getattr self ''_Product__product_type''"

definition device_setting :: "pyval \<Rightarrow> py_object \<Rightarrow> string \<Rightarrow> string \<Rightarrow> py_error + pyval" where
  "device_setting device_dict self device_type key =
     and_then (get_product_type self) (\<lambda>product_type.
     and_then (getitem device_dict product_type) (\<lambda>product.
     and_then (getitem product (PyStr ''devices'')) (\<lambda>devices.
     and_then (getitem devices (PyStr device_type)) (\<lambda>device.
     getitem device (PyStr key)))))"

definition Device_init :: "(string \<times> string) list \<Rightarrow> pyval \<Rightarrow> string \<Rightarrow> py_error + py_object" where
  "Device_init device_types device_dict device_type =
     (let self = Map.empty(''_Device__device_type'' \<mapsto> PyStr device_type) in
      case map_of device_types device_type of
        None \<Rightarrow> Inl KeyError
      | Some product_type \<Rightarrow>
          and_then (Product_init device_dict self product_type) (\<lambda>self.
          and_then (device_setting device_dict self device_type ''splunk_query_macs'') (\<lambda>v.
          let self = self(''_Device__splunk_query_macs'' \<mapsto> v) in
          and_then (device_setting device_dict self device_type ''splunk_query_daily_percentages'') (\<lambda>v.
          let self = self(''_Device__splunk_query_daily_percents'' \<mapsto> v) in
          and_then (device_setting device_dict self device_type ''logpath'') (\<lambda>v.
          let self = self(''_Device__logpath'' \<mapsto> v) in
          and_then (device_setting device_dict self device_type ''command'') (\<lambda>v.
          Inr (self(''_Device__command'' \<mapsto> v))))))))"

text \<open>
  The getters. \<^verbatim>\<open>get_splunk_daily_percents_query\<close> (line 189) returns
  \<^verbatim>\<open>self.__splunk_query_daily_percent\<close>, without the final \<^verbatim>\<open>s\<close> of the attribute
  that the constructor sets.
\<close>

definition get_device_type :: "py_object \<Rightarrow> py_error + pyval" where
  "get_device_type self = getattr self ''_Device__device_type''"

definition get_splunk_daily_percents_query :: "py_object \<Rightarrow> py_error + pyval" where
  "get_splunk_daily_percents_query self = getattr self ''_Device__splunk_query_daily_percent''"

definition get_logpath :: "py_object \<Rightarrow> py_error + pyval" where
  "get_logpath self = getattr self ''_Device__logpath''"

section \<open>\<^verbatim>\<open>get_configs_difference\<close> (lines 249-297)\<close>

text \<open>
  The extractor compares the device type with string literals only; a value that is no
  string equals none of them, like the empty name.
\<close>

definition device_name :: "pyval \<Rightarrow> string" where
  "device_name v = (case v of PyStr s \<Rightarrow> s | _ \<Rightarrow> '''')"

text \<open>
  \<^verbatim>\<open>list(pd.DataFrame(data)[col])\<close>. For \<^verbatim>\<open>data = None\<close> the frame is empty and has no
  column: \<^verbatim>\<open>KeyError\<close>. What pandas builds from a parsed JSON value is outside the
  sources and is the parameter \<open>frame_column\<close>.
\<close>

definition DataFrame_column ::
  "(json \<Rightarrow> string \<Rightarrow> py_error + 'c list) \<Rightarrow> json option \<Rightarrow> string \<Rightarrow> py_error + 'c list" where
  "DataFrame_column frame_column data col =
     (case data of None \<Rightarrow> Inl KeyError | Some v \<Rightarrow> frame_column v col)"

text \<open>
  The method. \<open>limit\<close> is the recursion limit left to \<^verbatim>\<open>json.loads\<close>;
  \<open>content\<close> is the lines of the log file at \<^verbatim>\<open>file_path\<close>; the log of the
  extractor is not followed further. \<open>call_markers f\<close> stands for
  \<^verbatim>\<open>list(f()["Marker"])\<close>, the call of the attribute found under the name
  \<^verbatim>\<open>get_static_error_df\<close> (lines 292-293).
\<close>

definition get_configs_difference ::
  "nat \<Rightarrow> (json \<Rightarrow> string \<Rightarrow> py_error + string list) \<Rightarrow> (pyval \<Rightarrow> py_error + string list)
     \<Rightarrow> string list \<Rightarrow> py_object \<Rightarrow> py_error + string list" where
  "get_configs_difference limit frame_column call_markers content self =
     and_then (get_device_type self) (\<lambda>device_type.
     and_then (get_logpath self) (\<lambda>logpath.
     and_then (fst (parse_configs limit (device_name device_type) content)) (\<lambda>data.
     and_then (DataFrame_column frame_column data ''header'') (\<lambda>errors_configs.
     and_then (getattr self ''get_static_error_df'') (\<lambda>get_static_error_df.
     and_then (call_markers get_static_error_df) (\<lambda>errors_conf.
     Inr (need_to_be_updated errors_conf errors_configs)))))))"

section \<open>\<^verbatim>\<open>get_daily_errors\<close> (lines 333-356)\<close>

text \<open>
  \<^verbatim>\<open>pd.DataFrame(records)[col].to_list()\<close> for a list of flat records: \<^verbatim>\<open>KeyError\<close>
  when no record has the field, and \<open>None\<close> (pandas' NaN) where a record lacks it.
  \<open>oneshot\<close> is the log-search backend: the records it answers to a query.
\<close>

definition records_column :: "(string \<times> string) list list \<Rightarrow> string \<Rightarrow> py_error + string option list" where
  "records_column records col =
     (if list_ex (\<lambda>r. map_of r col \<noteq> None) records
      then Inr (map (\<lambda>r. map_of r col) records)
      else Inl KeyError)"

definition get_daily_errors ::
  "(pyval \<Rightarrow> (string \<times> string) list list) \<Rightarrow> py_object \<Rightarrow> py_error + string option list" where
  "get_daily_errors oneshot self =
     and_then (get_splunk_daily_percents_query self) (\<lambda>query.
     let splunk_events = oneshot query in
     if length splunk_events > 0 then records_column splunk_events ''marker'' else Inr [])"

section \<open>Example inputs\<close>

text \<open>Tables of \<^verbatim>\<open>static.static\<close> with one device type for each product.\<close>

definition example_device_types :: "(string \<times> string) list" where
  "example_device_types = [(''XB3'', ''RDK-B''), (''XG'', ''RDK-V'')]"

definition example_device_dict :: pyval where
  "example_device_dict =
     PyDict
      [(''RDK-B'', PyDict [(''devices'', PyDict
          [(''XB3'', PyDict [(''splunk_query_macs'', PyStr ''q1''),
                            (''splunk_query_daily_percentages'', PyStr ''q2''),
                            (''logpath'', PyStr ''dcmscript.log''),
                            (''command'', PyStr ''c'')])])]),
       (''RDK-V'', PyDict [(''devices'', PyDict
          [(''XG'', PyDict [(''splunk_query_macs'', PyStr ''q1''),
                           (''splunk_query_daily_percentages'', PyStr ''q2''),
                           (''logpath'', PyStr ''dcmscript.log''),
                           (''command'', PyStr ''c'')])])])]"

text \<open>\<open>starts_within n s sep\<close>: an occurrence of \<open>sep\<close> in \<open>s\<close> begins before position \<open>n\<close>.\<close>

fun starts_within :: "nat \<Rightarrow> string \<Rightarrow> string \<Rightarrow> bool" where
  "starts_within 0 s sep \<longleftrightarrow> False"
| "starts_within (Suc n) [] sep \<longleftrightarrow> sep = []"
| "starts_within (Suc n) (c # cs) sep \<longleftrightarrow> startswith (c # cs) sep \<or> starts_within n cs sep"

text \<open>
  Lines of a device log: a telemetry profile with the \<^verbatim>\<open>cid\<close> field, one without it,
  and a line with the sentinel and no key marker.
\<close>

definition line_XB3 :: string where
  \<open>line_XB3 = ''urn:settings:TelemetryProfile={"telemetryProfile":[{"header":"X1_SYSTEM_ERROR","cid":"0"}],"schedule":"*/15 * * * *"}''\<close>

definition line_valid :: string where
  \<open>line_valid = ''urn:settings:TelemetryProfile={"telemetryProfile":[{"header":"SYS_ERROR"}],"schedule":"*/15 * * * *"}''\<close>

definition line_no_key :: string where
  \<open>line_no_key = ''urn:settings:TelemetryProfile=none''\<close>

text \<open>The code points of a string.\<close>

definition ustr :: "string \<Rightarrow> unicode" where
  "ustr s = map of_char s"

text \<open>
  A frame library for the examples: the string cells of a column of a list of records.
  And a directory of reference markers, and a backend without events.
\<close>

definition example_frame_column :: "json \<Rightarrow> string \<Rightarrow> py_error + string list" where
  "example_frame_column data col =
     (case data of
        JList rows \<Rightarrow>
          (let cells = concat (map (\<lambda>row. case row of
                                  JDict items \<Rightarrow> (case map_of items (ustr col) of
                                                    Some (JStr s) \<Rightarrow> [map char_of s]
                                                  | _ \<Rightarrow> [])
                                | _ \<Rightarrow> []) rows)
           in if cells = [] then Inl KeyError else Inr cells)
      | _ \<Rightarrow> Inl KeyError)"

definition example_call_markers :: "pyval \<Rightarrow> py_error + string list" where
  "example_call_markers f = Inr [''SYS_ERROR'', ''NEW_MARKER'']"

definition no_events :: "pyval \<Rightarrow> (string \<times> string) list list" where
  "no_events query = []"

section \<open>The restoration of the placeholders, step by step and in one pass\<close>

text \<open>
  The restoration of lines 267-269 with the text put for \<^verbatim>\<open>arun\<close> as a parameter: the
  program restores with a separator of two spaces on each side of the colon.
\<close>

definition restore_placeholders :: "string \<Rightarrow> string \<Rightarrow> string" where
  \<open>restore_placeholders sep s =
     replace
       (replace
         (replace
           (replace (replace s ''vikr'' ''{"'') ''sandep'' ''","'')
           ''arun'' sep)
         ''bindhu'' ''":"'')
       ''gauth'' ''"}''\<close>

text \<open>
  The same restoration in one pass from the left: at each position the placeholder
  that begins there, if any, is replaced.
\<close>

function expand :: "string \<Rightarrow> string \<Rightarrow> string" where
  "expand sep [] = []"
| \<open>expand sep (c # cs) =
     (if startswith (c # cs) ''vikr'' then ''{"'' @ expand sep (drop 4 (c # cs))
      else if startswith (c # cs) ''sandep'' then ''","'' @ expand sep (drop 6 (c # cs))
      else if startswith (c # cs) ''arun'' then sep @ expand sep (drop 4 (c # cs))
      else if startswith (c # cs) ''bindhu'' then ''":"'' @ expand sep (drop 6 (c # cs))
      else if startswith (c # cs) ''gauth'' then ''"}'' @ expand sep (drop 5 (c # cs))
      else c # expand sep cs)\<close>
  by pat_completeness auto
termination
  by (relation "measure (\<lambda>(sep, s). length s)") auto

declare expand.simps(2) [simp del]

text \<open>
  Two texts are comparable when one is a prefix of the other; \<open>clash_free p new\<close> when
  no occurrence of \<open>new\<close>, whole or cut off at the end of \<open>p\<close>, can begin inside \<open>p\<close>.
\<close>

fun comparable :: "string \<Rightarrow> string \<Rightarrow> bool" where
  "comparable [] ys \<longleftrightarrow> True"
| "comparable (x # xs) [] \<longleftrightarrow> True"
| "comparable (x # xs) (y # ys) \<longleftrightarrow> x = y \<and> comparable xs ys"

fun clash_free :: "string \<Rightarrow> string \<Rightarrow> bool" where
  "clash_free [] new \<longleftrightarrow> True"
| "clash_free (c # p) new \<longleftrightarrow> \<not> comparable (c # p) new \<and> clash_free p new"

section \<open>Texts that differ by the width of their whitespace\<close>

text \<open>
  \<open>separators_close q s\<close> reads a text \<open>s\<close> of the first step from the left, \<open>q\<close> telling
  whether the position is inside a string literal: the double quotes of \<^verbatim>\<open>vikr\<close> and
  \<^verbatim>\<open>gauth\<close> open or close a literal, those of \<^verbatim>\<open>sandep\<close> and \<^verbatim>\<open>bindhu\<close> close one and
  open the next (or the reverse), and every \<^verbatim>\<open>arun\<close> must stand inside a literal, so
  that its first double quote closes it and the colon stands between two literals.
\<close>

function separators_close :: "bool \<Rightarrow> string \<Rightarrow> bool" where
  "separators_close q [] \<longleftrightarrow> True"
| "separators_close q (c # cs) \<longleftrightarrow>
     (if startswith (c # cs) ''vikr'' then separators_close (\<not> q) (drop 4 (c # cs))
      else if startswith (c # cs) ''sandep'' then separators_close q (drop 6 (c # cs))
      else if startswith (c # cs) ''arun'' then q \<and> separators_close q (drop 4 (c # cs))
      else if startswith (c # cs) ''bindhu'' then separators_close q (drop 6 (c # cs))
      else if startswith (c # cs) ''gauth'' then separators_close (\<not> q) (drop 5 (c # cs))
      else separators_close q cs)"
  by pat_completeness auto
termination
  by (relation "measure (\<lambda>(q, s). length s)") auto

declare separators_close.simps(2) [simp del]

text \<open>
  \<open>widened q n w\<close>: the text \<open>w\<close> is the text \<open>n\<close> with more whitespace in some of the
  whitespace that stands outside of the string literals (none is added where \<open>n\<close> has
  none); \<open>q\<close> tells whether the two texts begin inside a string literal, where no
  backslash occurs.
\<close>

inductive widened :: "bool \<Rightarrow> string \<Rightarrow> string \<Rightarrow> bool" where
  nil: "widened q [] []"
| same: "widened q n w \<Longrightarrow> c \<noteq> dquote \<Longrightarrow> (q \<longrightarrow> c \<noteq> backslash) \<Longrightarrow> widened q (c # n) (c # w)"
| quote: "widened (\<not> q) n w \<Longrightarrow> widened q (dquote # n) (dquote # w)"
| wider: "widened False (c # n) w \<Longrightarrow> is_ws c \<Longrightarrow> is_ws d \<Longrightarrow> widened False (c # n) (d # w)"

text \<open>Two results of a scanner agree: the same error, or the same value in front of such texts.\<close>

definition same_result :: "py_error + 'a \<times> string \<Rightarrow> py_error + 'a \<times> string \<Rightarrow> bool" where
  "same_result r1 r2 =
     (case r1 of
        Inl e \<Rightarrow> r2 = Inl e
      | Inr (v, rn) \<Rightarrow> (case r2 of Inl e \<Rightarrow> False | Inr (v', rw) \<Rightarrow> v' = v \<and> widened False rn rw))"

section \<open>Properties of the string primitives\<close>

lemma replace_char_delete: "replace s [c] [] = filter (\<lambda>x. x \<noteq> c) s"
  by (induction s) (auto simp: startswith_def)

lemma replace_char_char: "replace s [c] [d] = map (\<lambda>x. if x = c then d else x) s"
  by (induction s) (auto simp: startswith_def)

section \<open>The normalizer does the four steps of the specification\<close>

text \<open>
  C3: on every raw string, \<open>remove_double_quotes\<close> is the composition of the four steps
  in order: the five sequences to their placeholders, every remaining double quote
  removed, the placeholders back (the key/value separator with doubled spaces), every
  backslash to \<^verbatim>\<open>#\<close>.
\<close>

theorem remove_double_quotes_steps:
  "remove_double_quotes raw = normalize_spec raw"
proof -
  have strip: "replace s [CHR 0x22] [] = strip_quotes s" for s
    by (simp add: replace_char_delete strip_quotes_def dquote_def)
  have hash: "replace s [backslash] ''#'' = backslash_to_hash s" for s
    by (simp add: replace_char_char backslash_to_hash_def)
  show ?thesis
    unfolding remove_double_quotes_def normalize_spec_def to_placeholders_def
      from_placeholders_def placeholder_table_def Let_def
    by (simp add: strip hash)
qed

section \<open>The marker difference\<close>

lemma set_setdiff1d: "set (setdiff1d ar1 ar2) = np_str ` set ar1 - np_str ` set ar2"
  by (auto simp: setdiff1d_def unique_def asarray_def)

lemma setdiff1d_sorted: "sorted (setdiff1d ar1 ar2) \<and> distinct (setdiff1d ar1 ar2)"
  by (simp add: setdiff1d_def unique_def sorted_filter[where f="\<lambda>x. x", simplified])

lemma np_str_id: "s = [] \<or> last s \<noteq> CHR 0x00 \<Longrightarrow> np_str s = s"
  by (cases s rule: rev_cases) (auto simp: np_str_def)

text \<open>
  Line 295 alone: on markers that do not end in a NUL character the difference holds
  exactly the reference markers that are not device markers. A marker that ends in a
  NUL character is compared, and returned, without it.
\<close>

lemma need_to_be_updated_set:
  assumes "\<forall>s\<in>set R \<union> set D. s = [] \<or> last s \<noteq> CHR 0x00"
  shows "set (need_to_be_updated R D) = set R - set D"
proof -
  from assms have "np_str ` set R = set R" and "np_str ` set D = set D"
    by (auto simp: np_str_id image_iff)
  then show ?thesis
    by (simp add: need_to_be_updated_def set_setdiff1d)
qed

lemma need_to_be_updated_trailing_NUL:
  "need_to_be_updated [[CHR ''a'', CHR 0x00]] [''a''] = []"
  by code_simp

section \<open>The online-device finder\<close>

lemma mset_shuffle_from:
  "k < length x \<or> k = 0 \<Longrightarrow> mset (shuffle_from randbelow k x) = mset x"
proof (induction k arbitrary: x)
  case 0
  then show ?case by simp
next
  case (Suc k)
  then have len: "Suc k < length x" by simp
  let ?j = "randbelow (Suc k + 1) mod (Suc k + 1)"
  have j: "?j < length x" using len
  proof -
    have "?j < Suc k + 1" by (rule mod_less_divisor) simp
    with len show ?thesis by linarith
  qed
  have "mset (x[Suc k := x ! ?j, ?j := x ! Suc k]) = mset x"
    using mset_swap[OF j len] .
  moreover have "mset (shuffle_from randbelow k (x[Suc k := x ! ?j, ?j := x ! Suc k]))
      = mset (x[Suc k := x ! ?j, ?j := x ! Suc k])"
    using len by (intro Suc.IH) simp
  ultimately show ?case by (simp add: Let_def)
qed

lemma mset_shuffle: "mset (shuffle randbelow x) = mset x"
  unfolding shuffle_def by (rule mset_shuffle_from) (cases x; simp)

lemma set_shuffle: "set (shuffle randbelow x) = set x"
  using mset_shuffle by (metis set_mset_mset)

lemma find_online_loop_result:
  "find_online_loop online ip dt macs = Inr (Some r) \<Longrightarrow>
     \<exists>mac\<in>set macs. online mac \<and>
       (dt = ''XI5'' \<and> r = mac \<or> dt \<in> {''XB3'', ''XB6'', ''XF3'', ''XG''} \<and> r = ip mac dt)"
proof (induction online ip dt macs rule: find_online_loop.induct)
  case (1 online ip dt macs)
  show ?case
  proof (cases "macs = []")
    case True
    with "1.prems" show ?thesis by (subst (asm) find_online_loop.simps) simp
  next
    case ne: False
    show ?thesis
    proof (cases "online (last macs)")
      case True
      with ne "1.prems" have
        "dt = ''XI5'' \<and> r = last macs \<or>
         dt \<in> {''XB3'', ''XB6'', ''XF3'', ''XG''} \<and> r = ip (last macs) dt"
        by (subst (asm) find_online_loop.simps) (auto simp: Let_def split: if_splits)
      moreover from ne have "last macs \<in> set macs" by simp
      ultimately show ?thesis using True
        by (intro bexI[of _ "last macs"]) simp_all
    next
      case False
      with ne "1.prems" have "find_online_loop online ip dt (butlast macs) = Inr (Some r)"
        by (subst (asm) find_online_loop.simps) (simp add: Let_def)
      from "1.IH"[OF ne refl refl refl False this] obtain mac where
        m: "mac \<in> set (butlast macs)" and o: "online mac" and
        d: "dt = ''XI5'' \<and> r = mac \<or> dt \<in> {''XB3'', ''XB6'', ''XF3'', ''XG''} \<and> r = ip mac dt"
        by (elim bexE conjE) (rule that)
      from m have "mac \<in> set macs" by (rule in_set_butlastD)
      then show ?thesis
        by (rule bexI[rotated]) (use o d in simp)
    qed
  qed
qed

lemma find_online_loop_exhausted:
  "list_all (\<lambda>m. \<not> online m) macs \<Longrightarrow> find_online_loop online ip dt macs = Inl IndexError"
proof (induction online ip dt macs rule: find_online_loop.induct)
  case (1 online ip dt macs)
  show ?case
  proof (cases "macs = []")
    case True
    then show ?thesis by (subst find_online_loop.simps) simp
  next
    case ne: False
    from "1.prems" ne have off: "\<not> online (last macs)"
      by (simp add: list_all_iff)
    from "1.prems" have "list_all (\<lambda>m. \<not> online m) (butlast macs)"
      by (auto simp: list_all_iff dest: in_set_butlastD)
    from "1.IH"[OF ne refl refl refl off this] off ne show ?thesis
      by (subst find_online_loop.simps) (simp add: Let_def)
  qed
qed

text \<open>
  C2 (the code departs from it): with an empty candidate list the finder does not
  return \<^verbatim>\<open>None\<close>; \<^verbatim>\<open>macs.pop()\<close> raises \<^verbatim>\<open>IndexError\<close>, for every device type,
  generator and directory client. Lemma \<open>find_online_loop_exhausted\<close> gives the same for
  every list without a live device.
\<close>

theorem find_online_device_empty_raises:
  "find_online_device randbelow router_is_online ip_from_mac device_type [] = Inl IndexError"
  by (simp add: find_online_device_def shuffle_def find_online_loop.simps)

text \<open>
  C5: whenever the finder yields a result, whatever the shuffle, the result comes from
  a candidate of the input list whose liveness check succeeded: for \<^verbatim>\<open>XI5\<close> it is that
  MAC itself, for \<^verbatim>\<open>XB3\<close>, \<^verbatim>\<open>XB6\<close>, \<^verbatim>\<open>XF3\<close> and \<^verbatim>\<open>XG\<close> the IP address resolved from
  it. (A result implies that the list is not empty.)
\<close>

theorem find_online_device_live:
  assumes "find_online_device randbelow router_is_online ip_from_mac device_type macs = Inr (Some r)"
  shows "\<exists>mac\<in>set macs. router_is_online mac \<and>
           (device_type = ''XI5'' \<and> r = mac
            \<or> device_type \<in> {''XB3'', ''XB6'', ''XF3'', ''XG''} \<and> r = ip_from_mac mac device_type)"
  using find_online_loop_result[of router_is_online ip_from_mac device_type "shuffle randbelow macs" r] assms
  by (simp add: find_online_device_def set_shuffle)

theorem find_online_device_live_witness:
  "find_online_device (\<lambda>n. 0) (\<lambda>m. m = ''macB'') (\<lambda>m d. ''ip-of-'' @ m) ''XI5''
     [''macA'', ''macB''] = Inr (Some ''macB'')
   \<and> (\<exists>mac\<in>set [''macA'', ''macB''].
         (\<lambda>m. m = ''macB'') mac \<and>
         (''XI5'' = ''XI5'' \<and> ''macB'' = mac
          \<or> ''XI5'' \<in> {''XB3'', ''XB6'', ''XF3'', ''XG''} \<and> ''macB'' = (\<lambda>m d. ''ip-of-'' @ m) mac ''XI5''))"
proof -
  have run: "find_online_device (\<lambda>n. 0) (\<lambda>m. m = ''macB'') (\<lambda>m d. ''ip-of-'' @ m) ''XI5''
     [''macA'', ''macB''] = Inr (Some ''macB'')"
    by (simp add: find_online_device_def shuffle_def find_online_loop.simps Let_def)
  from find_online_device_live[OF run] run show ?thesis by blast
qed

lemma and_then_InrE:
  assumes "and_then r f = Inr y"
  obtains x where "r = Inr x" and "f x = Inr y"
  using assms by (cases r) (simp_all add: and_then_def)

section \<open>The extractor: lines without the sentinel, and failures of the parser\<close>

lemma parse_configs_skip:
  "\<not> list_ex (is_in ''urn:settings:TelemetryProfile'') before \<Longrightarrow>
     parse_configs limit device_type (before @ content) = parse_configs limit device_type content"
  by (induction before) simp_all

lemma parse_configs_no_sentinel:
  "\<not> list_ex (is_in ''urn:settings:TelemetryProfile'') content \<Longrightarrow>
     parse_configs limit device_type content = (Inr None, [])"
  using parse_configs_skip[where before = content and device_type = device_type and content = "[]"]
  by simp

section \<open>The attributes of a device object\<close>

lemma Device_init_form:
  assumes "Device_init device_types device_dict device_type = Inr self"
  obtains product_type recipients v1 v2 v3 v4 where
    "self = [''_Device__device_type'' \<mapsto> PyStr device_type,
       ''_Product__product_type'' \<mapsto> PyStr product_type,
       ''_Product__email_sender'' \<mapsto> PyStr ''MarkerAlert@comcast.com'',
       ''_Product__email_subject'' \<mapsto> PyStr (''Missing Mandatory Markers on '' @ product_type),
       ''_Product__recipient_list'' \<mapsto> recipients,
       ''_Device__splunk_query_macs'' \<mapsto> v1,
       ''_Device__splunk_query_daily_percents'' \<mapsto> v2,
       ''_Device__logpath'' \<mapsto> v3,
       ''_Device__command'' \<mapsto> v4]"
  using assms unfolding Device_init_def Product_init_def Let_def
  by (cases "map_of device_types device_type") (auto elim!: and_then_InrE)

lemma Device_get_device_type:
  assumes "Device_init device_types device_dict device_type = Inr self"
  shows "get_device_type self = Inr (PyStr device_type)"
  using assms by (elim Device_init_form) (simp add: get_device_type_def getattr_def)

lemma Device_get_logpath:
  assumes "Device_init device_types device_dict device_type = Inr self"
  shows "\<exists>v. get_logpath self = Inr v"
  using assms by (elim Device_init_form) (simp add: get_logpath_def getattr_def)

lemma Device_no_get_static_error_df:
  assumes "Device_init device_types device_dict device_type = Inr self"
  shows "getattr self ''get_static_error_df'' = Inl AttributeError"
  using assms
  by (elim Device_init_form) (simp add: getattr_def Device_namespace_def Product_namespace_def)

lemma Device_no_splunk_query_daily_percent:
  assumes "Device_init device_types device_dict device_type = Inr self"
  shows "get_splunk_daily_percents_query self = Inl AttributeError"
  using assms
  by (elim Device_init_form)
    (simp add: get_splunk_daily_percents_query_def getattr_def Device_namespace_def Product_namespace_def)

lemma example_XB3:
  "\<exists>self. Device_init example_device_types example_device_dict ''XB3'' = Inr self"
  by (simp add: Device_init_def Product_init_def example_device_types_def example_device_dict_def
      and_then_def device_setting_def get_product_type_def getattr_def Let_def)

section \<open>The payload between the two markers\<close>

lemma split_from_skip:
  "sep \<noteq> [] \<Longrightarrow> \<not> starts_within (length a) (a @ b) sep \<Longrightarrow>
     split_from cur (a @ b) sep = split_from (cur @ a) b sep"
  by (induction a arbitrary: cur) auto

lemma split_from_at:
  "sep \<noteq> [] \<Longrightarrow> split_from cur (sep @ b) sep = cur # split_from [] b sep"
  by (cases sep) (simp_all add: startswith_def)

lemma split_from_first_field: "\<exists>r fields. split_from cur s sep = (cur @ r) # fields"
proof (induction s arbitrary: cur)
  case Nil
  show ?case by simp
next
  case (Cons c s)
  show ?case
  proof (cases "sep \<noteq> [] \<and> startswith (c # s) sep")
    case True
    then show ?thesis by simp
  next
    case False
    from Cons[of "cur @ [c]"] obtain r fields where
      "split_from (cur @ [c]) s sep = (cur @ [c] @ r) # fields" by auto
    with False show ?thesis by auto
  qed
qed

lemma startswith_append:
  "length sep \<le> length u \<Longrightarrow> startswith (u @ x) sep = startswith u sep"
  by (simp add: startswith_def)

lemma starts_within_prefix:
  "length sep \<le> Suc (length b) \<Longrightarrow>
     starts_within (length a) (a @ b @ x) sep = starts_within (length a) (a @ b @ y) sep"
proof (induction a)
  case Nil
  show ?case by simp
next
  case (Cons c a)
  have "startswith ((c # a @ b) @ z) sep = startswith (c # a @ b) sep" for z
    using Cons.prems by (intro startswith_append) simp
  then have "startswith (c # a @ b @ x) sep = startswith (c # a @ b @ y) sep"
    by simp
  with Cons show ?case by simp
qed

lemma parse_data_of_payload:
  assumes line: \<open>line = pre @ ''telemetryProfile":'' @ p @ '',"schedule":"'' @ rest\<close>
    and first_key: \<open>\<not> starts_within (length pre) line ''telemetryProfile":''\<close>
    and no_key: \<open>\<not> starts_within (length p + length '',"schedule":"'')
                     (p @ '',"schedule":"'' @ rest) ''telemetryProfile":''\<close>
    and first_trailing: \<open>\<not> starts_within (length p) (p @ '',"schedule":"'' @ rest) '',"schedule":"''\<close>
  shows \<open>parse_data_of device_type line =
     Inr (if device_type \<in> {''XB3'', ''XB6'', ''XF3''} then replace p ''"cid":"0"'' ''cid:0''
          else if device_type \<in> {''XG'', ''XI5''} then remove_double_quotes p
          else '''')\<close>
proof -
  let ?key = \<open>''telemetryProfile":''\<close>
  let ?tr = \<open>'',"schedule":"''\<close>
  have "split line ?key = pre # split_from [] (p @ ?tr @ rest) ?key"
    unfolding split_def
    using split_from_skip[of ?key pre "?key @ p @ ?tr @ rest" "[]"] first_key
      split_from_at[of ?key pre "p @ ?tr @ rest"]
    by (simp only: line append_Nil) simp
  moreover have "split_from [] (p @ ?tr @ rest) ?key = split_from (p @ ?tr) rest ?key"
    using split_from_skip[of ?key "p @ ?tr" rest "[]"] no_key by simp
  moreover obtain r fields where "split_from (p @ ?tr) rest ?key = ((p @ ?tr) @ r) # fields"
    using split_from_first_field by blast
  ultimately have field: "list_get (split line ?key) 1 = Inr (p @ ?tr @ r)"
    by (simp add: list_get_def)
  have "\<not> starts_within (length p) (p @ ?tr @ r) ?tr"
    using first_trailing starts_within_prefix[of ?tr ?tr p rest r] by simp
  then have "split (p @ ?tr @ r) ?tr = p # split_from [] r ?tr"
    unfolding split_def
    using split_from_skip[of ?tr p "?tr @ r" "[]"] split_from_at[of ?tr p r] by simp
  then have payload: "list_get (split (p @ ?tr @ r) ?tr) 0 = Inr p"
    by (simp add: list_get_def)
  show ?thesis
    unfolding parse_data_of_def Let_def field sum.case payload
    by simp
qed

text \<open>
  C4: for every list of lines, the first line holding the sentinel is the one whose
  payload is handed to \<^verbatim>\<open>json.loads\<close> first (earlier lines are skipped). When that line
  reads \<open>pre\<close>, key marker, \<open>p\<close>, trailing marker, \<open>rest\<close>, with these the first
  occurrences of the two markers, the text parsed is \<open>p\<close> with the one substitution of
  \<^verbatim>\<open>"cid":"0"\<close> by \<^verbatim>\<open>cid:0\<close> for XB3, XB6 and XF3, and the normalizer's output on \<open>p\<close>
  for XG and XI5. The fragment of the specification becomes the text it says.
\<close>

theorem parse_configs_first_sentinel_line:
  assumes "\<not> list_ex (is_in ''urn:settings:TelemetryProfile'') before"
    and "is_in ''urn:settings:TelemetryProfile'' line"
  shows \<open>parse_configs limit device_type (before @ line # after) =
      (case parse_data_of device_type line of
         Inl e \<Rightarrow> (Inl e, [])
       | Inr parse_data \<Rightarrow>
           (case json_loads limit parse_data of
              Inr jsn_data \<Rightarrow> (Inr (Some jsn_data), [])
            | Inl e \<Rightarrow> logged e (parse_configs limit device_type after)))
    \<and> (\<forall>pre p rest.
          line = pre @ ''telemetryProfile":'' @ p @ '',"schedule":"'' @ rest
          \<and> \<not> starts_within (length pre) line ''telemetryProfile":''
          \<and> \<not> starts_within (length p + length '',"schedule":"'')
                  (p @ '',"schedule":"'' @ rest) ''telemetryProfile":''
          \<and> \<not> starts_within (length p) (p @ '',"schedule":"'' @ rest) '',"schedule":"''
          \<longrightarrow> parse_data_of device_type line =
                Inr (if device_type \<in> {''XB3'', ''XB6'', ''XF3''} then replace p ''"cid":"0"'' ''cid:0''
                     else if device_type \<in> {''XG'', ''XI5''} then remove_double_quotes p
                     else ''''))
    \<and> replace ''{"header":"X1_SYSTEM_ERROR","cid":"0"}'' ''"cid":"0"'' ''cid:0''
        = ''{"header":"X1_SYSTEM_ERROR",cid:0}''\<close>
proof (intro conjI allI impI)
  show "parse_configs limit device_type (before @ line # after) =
      (case parse_data_of device_type line of
         Inl e \<Rightarrow> (Inl e, [])
       | Inr parse_data \<Rightarrow>
           (case json_loads limit parse_data of
              Inr jsn_data \<Rightarrow> (Inr (Some jsn_data), [])
            | Inl e \<Rightarrow> logged e (parse_configs limit device_type after)))"
    using parse_configs_skip[OF assms(1), where device_type = device_type and content = "line # after"]
      assms(2)
    by simp
next
  fix pre p rest
  assume \<open>line = pre @ ''telemetryProfile":'' @ p @ '',"schedule":"'' @ rest
          \<and> \<not> starts_within (length pre) line ''telemetryProfile":''
          \<and> \<not> starts_within (length p + length '',"schedule":"'')
                  (p @ '',"schedule":"'' @ rest) ''telemetryProfile":''
          \<and> \<not> starts_within (length p) (p @ '',"schedule":"'' @ rest) '',"schedule":"''\<close>
  then show \<open>parse_data_of device_type line =
                Inr (if device_type \<in> {''XB3'', ''XB6'', ''XF3''} then replace p ''"cid":"0"'' ''cid:0''
                     else if device_type \<in> {''XG'', ''XI5''} then remove_double_quotes p
                     else '''')\<close>
    by (elim conjE) (rule parse_data_of_payload; assumption)
next
  show \<open>replace ''{"header":"X1_SYSTEM_ERROR","cid":"0"}'' ''"cid":"0"'' ''cid:0''
        = ''{"header":"X1_SYSTEM_ERROR",cid:0}''\<close>
    by (simp add: startswith_def)
qed

lemma line_XB3_split:
  \<open>line_XB3 = ''urn:settings:TelemetryProfile={"'' @ ''telemetryProfile":''
      @ ''[{"header":"X1_SYSTEM_ERROR","cid":"0"}]'' @ '',"schedule":"'' @ ''*/15 * * * *"}''\<close>
  by (simp add: line_XB3_def)

theorem parse_configs_first_sentinel_line_witness:
  \<open>parse_configs 1000 ''XB3'' ([''# dcm settings''] @ line_XB3 # []) = (Inr None, [JSONDecodeError])
   \<and> parse_data_of ''XB3'' line_XB3 = Inr ''[{"header":"X1_SYSTEM_ERROR",cid:0}]''\<close>
proof -
  have h1: "\<not> list_ex (is_in ''urn:settings:TelemetryProfile'') [''# dcm settings'']"
    by code_simp
  have h2: "is_in ''urn:settings:TelemetryProfile'' line_XB3"
    by code_simp
  note inst = parse_configs_first_sentinel_line[OF h1 h2, where device_type = "''XB3''"
      and after = "[]" and limit = 1000]
  have h3: \<open>\<not> starts_within (length ''urn:settings:TelemetryProfile={"'') line_XB3 ''telemetryProfile":''\<close>
    by code_simp
  have h4: \<open>\<not> starts_within (length ''[{"header":"X1_SYSTEM_ERROR","cid":"0"}]'' + length '',"schedule":"'')
      (''[{"header":"X1_SYSTEM_ERROR","cid":"0"}]'' @ '',"schedule":"'' @ ''*/15 * * * *"}'') ''telemetryProfile":''\<close>
    by code_simp
  have h5: \<open>\<not> starts_within (length ''[{"header":"X1_SYSTEM_ERROR","cid":"0"}]'')
      (''[{"header":"X1_SYSTEM_ERROR","cid":"0"}]'' @ '',"schedule":"'' @ ''*/15 * * * *"}'') '',"schedule":"''\<close>
    by code_simp
  have \<open>parse_data_of ''XB3'' line_XB3 =
      Inr (if ''XB3'' \<in> {''XB3'', ''XB6'', ''XF3''}
           then replace ''[{"header":"X1_SYSTEM_ERROR","cid":"0"}]'' ''"cid":"0"'' ''cid:0''
           else if ''XB3'' \<in> {''XG'', ''XI5''}
           then remove_double_quotes ''[{"header":"X1_SYSTEM_ERROR","cid":"0"}]''
           else '''')\<close>
    by (rule inst[THEN conjunct2, THEN conjunct1, rule_format,
          OF conjI[OF line_XB3_split conjI[OF h3 conjI[OF h4 h5]]]])
  also have \<open>\<dots> = Inr ''[{"header":"X1_SYSTEM_ERROR",cid:0}]''\<close>
    by code_simp
  finally have pd: \<open>parse_data_of ''XB3'' line_XB3 = Inr ''[{"header":"X1_SYSTEM_ERROR",cid:0}]''\<close> .
  have js: \<open>json_loads 1000 ''[{"header":"X1_SYSTEM_ERROR",cid:0}]'' = Inl JSONDecodeError\<close>
    by code_simp
  have "parse_configs 1000 ''XB3'' ([''# dcm settings''] @ line_XB3 # []) = (Inr None, [JSONDecodeError])"
    by (simp only: inst[THEN conjunct1] pd js sum.case logged_def parse_configs.simps fst_conv snd_conv)
  with pd show ?thesis by (rule conjI[rotated])
qed

lemma parse_configs_all_fail_log:
  "list_all (\<lambda>line. is_in ''urn:settings:TelemetryProfile'' line \<longrightarrow>
      (\<exists>parse_data e. parse_data_of device_type line = Inr parse_data \<and> json_loads limit parse_data = Inl e)) content
   \<Longrightarrow> parse_configs limit device_type content =
        (Inr None, map (\<lambda>line. projl (json_loads limit (projr (parse_data_of device_type line))))
                     (filter (is_in ''urn:settings:TelemetryProfile'') content))"
proof (induction content)
  case Nil
  then show ?case by simp
next
  case (Cons line content)
  show ?case
  proof (cases "is_in ''urn:settings:TelemetryProfile'' line")
    case True
    with Cons.prems obtain parse_data e where
      "parse_data_of device_type line = Inr parse_data" "json_loads limit parse_data = Inl e"
      by auto
    with True Cons show ?thesis by (simp add: logged_def)
  next
    case False
    with Cons show ?thesis by simp
  qed
qed

text \<open>
  C7 (amended): the extractor returns no result, and logs nothing, when no line holds
  the sentinel. A JSON failure on a sentinel line is caught and logged, never raised,
  and the scan goes on with the lines after it: the result is \<^verbatim>\<open>None\<close> when every
  sentinel line fails to parse (one log entry per such line), and otherwise whatever
  the rest of the file gives.
\<close>

theorem parse_configs_failures_logged:
  "(\<not> list_ex (is_in ''urn:settings:TelemetryProfile'') content \<longrightarrow>
      parse_configs limit device_type content = (Inr None, []))
   \<and> (list_all (\<lambda>line. is_in ''urn:settings:TelemetryProfile'' line \<longrightarrow>
          (\<exists>parse_data e. parse_data_of device_type line = Inr parse_data
             \<and> json_loads limit parse_data = Inl e)) content \<longrightarrow>
        parse_configs limit device_type content =
          (Inr None, map (\<lambda>line. projl (json_loads limit (projr (parse_data_of device_type line))))
                       (filter (is_in ''urn:settings:TelemetryProfile'') content)))
   \<and> (\<forall>before line after parse_data e.
          \<not> list_ex (is_in ''urn:settings:TelemetryProfile'') before
          \<and> is_in ''urn:settings:TelemetryProfile'' line
          \<and> parse_data_of device_type line = Inr parse_data
          \<and> json_loads limit parse_data = Inl e \<longrightarrow>
          parse_configs limit device_type (before @ line # after)
            = logged e (parse_configs limit device_type after))"
proof (intro conjI allI impI)
  assume "\<not> list_ex (is_in ''urn:settings:TelemetryProfile'') content"
  then show "parse_configs limit device_type content = (Inr None, [])"
    by (rule parse_configs_no_sentinel)
next
  assume "list_all (\<lambda>line. is_in ''urn:settings:TelemetryProfile'' line \<longrightarrow>
          (\<exists>parse_data e. parse_data_of device_type line = Inr parse_data
             \<and> json_loads limit parse_data = Inl e)) content"
  then show "parse_configs limit device_type content =
          (Inr None, map (\<lambda>line. projl (json_loads limit (projr (parse_data_of device_type line))))
                       (filter (is_in ''urn:settings:TelemetryProfile'') content))"
    by (rule parse_configs_all_fail_log)
next
  fix before line after parse_data e
  assume h: "\<not> list_ex (is_in ''urn:settings:TelemetryProfile'') before
          \<and> is_in ''urn:settings:TelemetryProfile'' line
          \<and> parse_data_of device_type line = Inr parse_data
          \<and> json_loads limit parse_data = Inl e"
  then have "parse_configs limit device_type (before @ line # after)
      = parse_configs limit device_type (line # after)"
    by (intro parse_configs_skip) (elim conjE)
  with h show "parse_configs limit device_type (before @ line # after)
            = logged e (parse_configs limit device_type after)"
    by simp
qed

lemma line_XB3_parse_data:
  \<open>parse_data_of ''XB3'' line_XB3 = Inr ''[{"header":"X1_SYSTEM_ERROR",cid:0}]''\<close>
  by code_simp

lemma XB3_payload_not_json:
  \<open>json_loads 1000 ''[{"header":"X1_SYSTEM_ERROR",cid:0}]'' = Inl JSONDecodeError\<close>
  by code_simp

lemma line_XB3_sentinel: "is_in ''urn:settings:TelemetryProfile'' line_XB3"
  by code_simp

theorem parse_configs_failures_logged_witness:
  "parse_configs 1000 ''XB3'' [''# dcm settings''] = (Inr None, [])
   \<and> parse_configs 1000 ''XB3'' [line_XB3] = (Inr None, [JSONDecodeError])
   \<and> parse_configs 1000 ''XB3'' ([] @ line_XB3 # [line_valid])
       = logged JSONDecodeError (parse_configs 1000 ''XB3'' [line_valid])"
proof -
  have h1: "\<not> list_ex (is_in ''urn:settings:TelemetryProfile'') [''# dcm settings'']"
    by code_simp
  have h2: "list_all (\<lambda>line. is_in ''urn:settings:TelemetryProfile'' line \<longrightarrow>
      (\<exists>parse_data e. parse_data_of ''XB3'' line = Inr parse_data \<and> json_loads 1000 parse_data = Inl e))
      [line_XB3]"
    using line_XB3_parse_data XB3_payload_not_json by (simp only: list_all_Cons_iff list_all_Nil_iff simp_thms) blast
  have h3: "\<not> list_ex (is_in ''urn:settings:TelemetryProfile'') []
      \<and> is_in ''urn:settings:TelemetryProfile'' line_XB3
      \<and> parse_data_of ''XB3'' line_XB3 = Inr ''[{\"header\":\"X1_SYSTEM_ERROR\",cid:0}]''
      \<and> json_loads 1000 ''[{\"header\":\"X1_SYSTEM_ERROR\",cid:0}]'' = Inl JSONDecodeError"
    using line_XB3_parse_data XB3_payload_not_json line_XB3_sentinel
    by (simp only: list_ex_Nil_iff not_False_eq_True simp_thms)
  note inst = parse_configs_failures_logged[where content = "[''# dcm settings'']"
      and device_type = "''XB3''" and limit = 1000]
  note inst2 = parse_configs_failures_logged[where content = "[line_XB3]"
      and device_type = "''XB3''" and limit = 1000]
  have a: "parse_configs 1000 ''XB3'' [''# dcm settings''] = (Inr None, [])"
    using inst[THEN conjunct1, rule_format, OF h1] .
  have "parse_configs 1000 ''XB3'' [line_XB3] =
      (Inr None, map (\<lambda>line. projl (json_loads 1000 (projr (parse_data_of ''XB3'' line))))
                     (filter (is_in ''urn:settings:TelemetryProfile'') [line_XB3]))"
    using inst2[THEN conjunct2, THEN conjunct1, rule_format, OF h2] .
  then have b: "parse_configs 1000 ''XB3'' [line_XB3] = (Inr None, [JSONDecodeError])"
    by (simp add: line_XB3_sentinel line_XB3_parse_data XB3_payload_not_json)
  have c: "parse_configs 1000 ''XB3'' ([] @ line_XB3 # [line_valid])
       = logged JSONDecodeError (parse_configs 1000 ''XB3'' [line_valid])"
    using inst2[THEN conjunct2, THEN conjunct2, rule_format, OF h3] .
  from a b c show ?thesis by (intro conjI)
qed

theorem parse_configs_failure_then_result:
  \<open>parse_data_of ''XB3'' line_XB3 = Inr ''[{"header":"X1_SYSTEM_ERROR",cid:0}]''
   \<and> json_loads 1000 ''[{"header":"X1_SYSTEM_ERROR",cid:0}]'' = Inl JSONDecodeError
   \<and> parse_configs 1000 ''XB3'' [line_XB3, line_valid] =
       (Inr (Some (JList [JDict [(ustr ''header'', JStr (ustr ''SYS_ERROR''))]])), [JSONDecodeError])\<close>
  by (intro conjI; code_simp)

section \<open>The methods on a constructed device\<close>

lemma example_XG:
  "\<exists>self. Device_init example_device_types example_device_dict ''XG'' = Inr self"
  by (simp add: Device_init_def Product_init_def example_device_types_def example_device_dict_def
      and_then_def device_setting_def get_product_type_def getattr_def Let_def)

text \<open>
  C8 (the code departs from it): for every device object the constructor builds and
  every file whose telemetry payload is not parseable, so that the extractor returns
  \<^verbatim>\<open>None\<close>, the diff computation does not yield "no data": line 290 reads the
  \<^verbatim>\<open>header\<close> column of the empty frame \<^verbatim>\<open>pd.DataFrame(None)\<close> and raises
  \<^verbatim>\<open>KeyError\<close> to the caller.
\<close>

theorem get_configs_difference_none:
  assumes "Device_init device_types device_dict device_type = Inr self"
    and "fst (parse_configs limit device_type content) = Inr None"
  shows "get_configs_difference limit frame_column call_markers content self = Inl KeyError"
proof -
  obtain v where "get_logpath self = Inr v"
    using Device_get_logpath[OF assms(1)] by blast
  then show ?thesis
    using assms(2)
    by (simp add: get_configs_difference_def and_then_def Device_get_device_type[OF assms(1)]
        device_name_def DataFrame_column_def)
qed

theorem get_configs_difference_none_witness:
  "and_then (Device_init example_device_types example_device_dict ''XB3'')
     (get_configs_difference 1000 example_frame_column example_call_markers [line_XB3]) = Inl KeyError"
proof -
  obtain self where init: "Device_init example_device_types example_device_dict ''XB3'' = Inr self"
    using example_XB3 by blast
  have none: "fst (parse_configs 1000 ''XB3'' [line_XB3]) = Inr None"
    by code_simp
  from get_configs_difference_none[OF init none] show ?thesis
    by (simp add: init and_then_def)
qed

text \<open>
  C9 (the code departs from it): for every device object the constructor builds and
  every answer of the log-search backend, the empty one included, \<^verbatim>\<open>get_daily_errors\<close>
  raises \<^verbatim>\<open>AttributeError\<close>: the getter of the query reads
  \<^verbatim>\<open>self.__splunk_query_daily_percent\<close>, and the constructor sets
  \<^verbatim>\<open>self.__splunk_query_daily_percents\<close>.
\<close>

theorem get_daily_errors_raises:
  assumes "Device_init device_types device_dict device_type = Inr self"
  shows "get_daily_errors oneshot self = Inl AttributeError"
  by (simp add: get_daily_errors_def and_then_def Device_no_splunk_query_daily_percent[OF assms])

theorem get_daily_errors_raises_witness:
  "and_then (Device_init example_device_types example_device_dict ''XB3'')
     (get_daily_errors no_events) = Inl AttributeError"
proof -
  obtain self where init: "Device_init example_device_types example_device_dict ''XB3'' = Inr self"
    using example_XB3 by blast
  from get_daily_errors_raises[OF init] show ?thesis
    by (simp add: init and_then_def)
qed

text \<open>
  C10 (amended): for every device object the constructor builds, every file content
  and every behaviour of the frame library, \<^verbatim>\<open>get_configs_difference\<close> raises and never
  returns a difference. Whenever lines 289 and 290 complete (the extractor returns and
  the \<^verbatim>\<open>header\<close> column is read), the exception is the \<^verbatim>\<open>AttributeError\<close> of
  \<^verbatim>\<open>self.get_static_error_df\<close>, a name that neither the object nor \<^verbatim>\<open>Device\<close> nor
  \<^verbatim>\<open>Product\<close> defines; an exception of those two lines comes first otherwise.
\<close>

theorem get_configs_difference_never_returns:
  assumes "Device_init device_types device_dict device_type = Inr self"
  shows "(\<exists>e. get_configs_difference limit frame_column call_markers content self = Inl e)
    \<and> (\<forall>data errors_configs.
          fst (parse_configs limit device_type content) = Inr data
          \<and> DataFrame_column frame_column data ''header'' = Inr errors_configs
          \<longrightarrow> get_configs_difference limit frame_column call_markers content self = Inl AttributeError)"
proof -
  obtain v where lp: "get_logpath self = Inr v"
    using Device_get_logpath[OF assms(1)] by blast
  have unfold: "get_configs_difference limit frame_column call_markers content self =
      and_then (fst (parse_configs limit device_type content)) (\<lambda>data.
      and_then (DataFrame_column frame_column data ''header'') (\<lambda>errors_configs.
      Inl AttributeError))"
    by (simp add: get_configs_difference_def and_then_def lp Device_get_device_type[OF assms(1)]
        device_name_def Device_no_get_static_error_df[OF assms(1)])
  show ?thesis
    unfolding unfold
    by (auto simp: and_then_def split: sum.splits)
qed

theorem get_configs_difference_never_returns_witness:
  "and_then (Device_init example_device_types example_device_dict ''XG'')
     (get_configs_difference 1000 example_frame_column example_call_markers [line_valid])
     = Inl AttributeError"
proof -
  obtain self where init: "Device_init example_device_types example_device_dict ''XG'' = Inr self"
    using example_XG by blast
  have parsed: "fst (parse_configs 1000 ''XG'' [line_valid])
      = Inr (Some (JList [JDict [(ustr ''header'', JStr (ustr ''SYS_ERROR''))]]))"
    by code_simp
  have column: "DataFrame_column example_frame_column
      (Some (JList [JDict [(ustr ''header'', JStr (ustr ''SYS_ERROR''))]])) ''header''
      = Inr [''SYS_ERROR'']"
    by code_simp
  from get_configs_difference_never_returns[OF init, THEN conjunct2, rule_format,
      OF conjI[OF parsed column]]
  show ?thesis
    by (simp add: init and_then_def)
qed

theorem get_configs_difference_index_error:
  "and_then (Device_init example_device_types example_device_dict ''XB3'')
     (get_configs_difference 1000 example_frame_column example_call_markers [line_no_key])
     = Inl IndexError
   \<and> Inl IndexError \<noteq> (Inl AttributeError :: py_error + string list)"
proof -
  obtain self where init: "Device_init example_device_types example_device_dict ''XB3'' = Inr self"
    using example_XB3 by blast
  obtain v where lp: "get_logpath self = Inr v"
    using Device_get_logpath[OF init] by blast
  have raised: "fst (parse_configs 1000 ''XB3'' [line_no_key]) = Inl IndexError"
    by code_simp
  have name: "device_name (PyStr ''XB3'') = ''XB3''"
    by (simp add: device_name_def)
  have "get_configs_difference 1000 example_frame_column example_call_markers [line_no_key] self
      = Inl IndexError"
    by (simp only: get_configs_difference_def and_then_def sum.case lp raised name
        Device_get_device_type[OF init])
  then show ?thesis
    by (simp add: init and_then_def)
qed

text \<open>
  C1 (the code departs from it): the difference of line 295 is never returned. For
  every device object the constructor builds and every file from which the extractor
  returns data whose \<^verbatim>\<open>header\<close> column gives the device markers \<open>D\<close>, the method
  raises \<^verbatim>\<open>AttributeError\<close> at line 292, whatever the accessor of the reference markers
  would give: for no reference list \<open>R\<close> is the difference of \<open>R\<close> and \<open>D\<close> the result.
\<close>

theorem get_configs_difference_no_diff:
  assumes "Device_init device_types device_dict device_type = Inr self"
    and "fst (parse_configs limit device_type content) = Inr data"
    and "DataFrame_column frame_column data ''header'' = Inr D"
  shows "get_configs_difference limit frame_column call_markers content self = Inl AttributeError
    \<and> get_configs_difference limit frame_column call_markers content self
        \<noteq> Inr (need_to_be_updated R D)"
proof -
  obtain v where lp: "get_logpath self = Inr v"
    using Device_get_logpath[OF assms(1)] by blast
  have "get_configs_difference limit frame_column call_markers content self = Inl AttributeError"
    by (simp add: get_configs_difference_def and_then_def lp Device_get_device_type[OF assms(1)]
        device_name_def Device_no_get_static_error_df[OF assms(1)] assms(2,3))
  then show ?thesis by simp
qed

theorem get_configs_difference_no_diff_witness:
  "and_then (Device_init example_device_types example_device_dict ''XG'')
     (get_configs_difference 1000 example_frame_column example_call_markers
        [''# dcm settings'', line_valid])
     = Inl AttributeError
   \<and> DataFrame_column example_frame_column
       (Some (JList [JDict [(ustr ''header'', JStr (ustr ''SYS_ERROR''))]])) ''header''
     = Inr [''SYS_ERROR'']
   \<and> example_call_markers (PyStr ''get_conf_error_df'') = Inr [''SYS_ERROR'', ''NEW_MARKER'']
   \<and> need_to_be_updated [''SYS_ERROR'', ''NEW_MARKER''] [''SYS_ERROR''] = [''NEW_MARKER'']"
proof -
  obtain self where init: "Device_init example_device_types example_device_dict ''XG'' = Inr self"
    using example_XG by blast
  have parsed: "fst (parse_configs 1000 ''XG'' [''# dcm settings'', line_valid])
      = Inr (Some (JList [JDict [(ustr ''header'', JStr (ustr ''SYS_ERROR''))]]))"
    by code_simp
  have column: "DataFrame_column example_frame_column
      (Some (JList [JDict [(ustr ''header'', JStr (ustr ''SYS_ERROR''))]])) ''header''
      = Inr [''SYS_ERROR'']"
    by code_simp
  have markers: "example_call_markers (PyStr ''get_conf_error_df'') = Inr [''SYS_ERROR'', ''NEW_MARKER'']"
    by (simp add: example_call_markers_def)
  have diff: "need_to_be_updated [''SYS_ERROR'', ''NEW_MARKER''] [''SYS_ERROR''] = [''NEW_MARKER'']"
    by code_simp
  from get_configs_difference_no_diff[OF init parsed column, THEN conjunct1]
  have "and_then (Device_init example_device_types example_device_dict ''XG'')
     (get_configs_difference 1000 example_frame_column example_call_markers
        [''# dcm settings'', line_valid])
     = Inl AttributeError"
    by (simp add: init and_then_def)
  with column markers diff show ?thesis by (intro conjI)
qed

section \<open>Replacement and prefixes\<close>

lemma startswith_Nil [simp]: "startswith s []"
  by (simp add: startswith_def)

lemma startswith_Nil_Cons [simp]: "\<not> startswith [] (d # ds)"
  by (simp add: startswith_def)

lemma startswith_Cons [simp]: "startswith (c # cs) (d # ds) \<longleftrightarrow> c = d \<and> startswith cs ds"
  by (simp add: startswith_def)

lemma startswith_self [simp]: "startswith (p @ x) p"
  by (simp add: startswith_def)

lemma startswithD: "startswith s p \<Longrightarrow> s = p @ drop (length p) s"
  by (metis append_take_drop_id startswith_def)

lemma startswith_comparable: "startswith (new @ r) p \<Longrightarrow> comparable p new"
  by (induction p new rule: comparable.induct) auto

lemma replace_Cons_other:
  "old \<noteq> [] \<Longrightarrow> \<not> startswith (c # cs) old \<Longrightarrow> replace (c # cs) old new = c # replace cs old new"
  by simp

lemma replace_at: "old \<noteq> [] \<Longrightarrow> replace (old @ x) old new = new @ replace x old new"
  by (cases old) simp_all

lemma replace_past:
  assumes "old \<noteq> []" and "hd old \<notin> set p"
  shows "replace (p @ x) old new = p @ replace x old new"
  using assms(2)
proof (induction p)
  case Nil
  show ?case by simp
next
  case (Cons c p)
  from assms(1) obtain d ds where old: "old = d # ds" by (cases old) auto
  with Cons.prems have "c \<noteq> d" and "hd old \<notin> set p" by auto
  then have "\<not> startswith (c # p @ x) old" and "replace (p @ x) old new = p @ replace x old new"
    using old Cons.IH by simp_all
  then show ?case
    using replace_Cons_other[OF assms(1), of c "p @ x" new] by simp
qed

lemma replace_reflects_prefix:
  "old \<noteq> [] \<Longrightarrow> clash_free p new \<Longrightarrow> startswith (replace s old new) p \<Longrightarrow> startswith s p"
proof (induction s arbitrary: p)
  case Nil
  then show ?case by simp
next
  case (Cons c cs)
  show ?case
  proof (cases p)
    case Nil
    then show ?thesis by simp
  next
    case p: (Cons d p')
    show ?thesis
    proof (cases "startswith (c # cs) old")
      case True
      with Cons.prems(1,3) have "startswith (new @ replace (drop (length old) (c # cs)) old new) p"
        by simp
      then have "comparable p new" by (rule startswith_comparable)
      with Cons.prems(2) p show ?thesis by simp
    next
      case False
      with Cons.prems(1,3) p have "c = d" and "startswith (replace cs old new) p'"
        by simp_all
      moreover from Cons.prems(2) p have "clash_free p' new" by simp
      ultimately show ?thesis using Cons.IH[OF Cons.prems(1)] p by simp
    qed
  qed
qed

lemma step_reflect:
  assumes "\<not> startswith (c # cs) (t # ts)" and "clash_free ts new" and "old \<noteq> []"
  shows "\<not> startswith (c # replace cs old new) (t # ts)"
  using assms replace_reflects_prefix[of old ts new cs] by auto

section \<open>The one-pass restoration\<close>

lemma expand_vikr: \<open>expand sep (''vikr'' @ y) = ''{"'' @ expand sep y\<close>
  by (simp add: expand.simps(2))

lemma expand_sandep: \<open>expand sep (''sandep'' @ y) = ''","'' @ expand sep y\<close>
  by (simp add: expand.simps(2))

lemma expand_arun: \<open>expand sep (''arun'' @ y) = sep @ expand sep y\<close>
  by (simp add: expand.simps(2))

lemma expand_bindhu: \<open>expand sep (''bindhu'' @ y) = ''":"'' @ expand sep y\<close>
  by (simp add: expand.simps(2))

lemma expand_gauth: \<open>expand sep (''gauth'' @ y) = ''"}'' @ expand sep y\<close>
  by (simp add: expand.simps(2))

lemma expand_plain:
  assumes "\<not> startswith (c # cs) ''vikr''" and "\<not> startswith (c # cs) ''sandep''"
    and "\<not> startswith (c # cs) ''arun''" and "\<not> startswith (c # cs) ''bindhu''"
    and "\<not> startswith (c # cs) ''gauth''"
  shows "expand sep (c # cs) = c # expand sep cs"
  using assms by (simp only: expand.simps(2) if_False)

lemma token_cases [case_names nil vikr sandep arun bindhu gauth plain]:
  obtains (nil) "s = []"
  | (vikr) r where "s = ''vikr'' @ r"
  | (sandep) r where "s = ''sandep'' @ r"
  | (arun) r where "s = ''arun'' @ r"
  | (bindhu) r where "s = ''bindhu'' @ r"
  | (gauth) r where "s = ''gauth'' @ r"
  | (plain) c cs where "s = c # cs"
      and "\<not> startswith (c # cs) ''vikr''" and "\<not> startswith (c # cs) ''sandep''"
      and "\<not> startswith (c # cs) ''arun''" and "\<not> startswith (c # cs) ''bindhu''"
      and "\<not> startswith (c # cs) ''gauth''"
proof (cases s)
  case Nil
  then show ?thesis by (rule nil)
next
  case (Cons c cs)
  show ?thesis
  proof (cases "startswith s ''vikr''")
    case True
    then show ?thesis using startswithD vikr by blast
  next
    case n1: False
    show ?thesis
    proof (cases "startswith s ''sandep''")
      case True
      then show ?thesis using startswithD sandep by blast
    next
      case n2: False
      show ?thesis
      proof (cases "startswith s ''arun''")
        case True
        then show ?thesis using startswithD arun by blast
      next
        case n3: False
        show ?thesis
        proof (cases "startswith s ''bindhu''")
          case True
          then show ?thesis using startswithD bindhu by blast
        next
          case n4: False
          show ?thesis
          proof (cases "startswith s ''gauth''")
            case True
            then show ?thesis using startswithD gauth by blast
          next
            case n5: False
            show ?thesis
              using plain[OF Cons] n1 n2 n3 n4 n5 unfolding Cons by blast
          qed
        qed
      qed
    qed
  qed
qed

lemma restore_vikr:
  assumes "sep = CHR 0x22 # sep'" and "CHR ''b'' \<notin> set sep'" and "CHR ''g'' \<notin> set sep'"
  shows \<open>restore_placeholders sep (''vikr'' @ r) = ''{"'' @ restore_placeholders sep r\<close>
  using assms unfolding restore_placeholders_def by simp

lemma restore_sandep:
  assumes "sep = CHR 0x22 # sep'" and "CHR ''b'' \<notin> set sep'" and "CHR ''g'' \<notin> set sep'"
  shows \<open>restore_placeholders sep (''sandep'' @ r) = ''","'' @ restore_placeholders sep r\<close>
  using assms unfolding restore_placeholders_def by simp

lemma restore_arun:
  assumes "sep = CHR 0x22 # sep'" and "CHR ''b'' \<notin> set sep'" and "CHR ''g'' \<notin> set sep'"
  shows \<open>restore_placeholders sep (''arun'' @ r) = sep @ restore_placeholders sep r\<close>
  using assms unfolding restore_placeholders_def by (simp add: replace_past)

lemma restore_bindhu:
  assumes "sep = CHR 0x22 # sep'" and "CHR ''b'' \<notin> set sep'" and "CHR ''g'' \<notin> set sep'"
  shows \<open>restore_placeholders sep (''bindhu'' @ r) = ''":"'' @ restore_placeholders sep r\<close>
  using assms unfolding restore_placeholders_def by simp

lemma restore_gauth:
  assumes "sep = CHR 0x22 # sep'" and "CHR ''b'' \<notin> set sep'" and "CHR ''g'' \<notin> set sep'"
  shows \<open>restore_placeholders sep (''gauth'' @ r) = ''"}'' @ restore_placeholders sep r\<close>
  using assms unfolding restore_placeholders_def by simp

lemma restore_plain:
  assumes "sep = CHR 0x22 # sep'"
    and "\<not> startswith (c # cs) ''vikr''" and "\<not> startswith (c # cs) ''sandep''"
    and "\<not> startswith (c # cs) ''arun''" and "\<not> startswith (c # cs) ''bindhu''"
    and "\<not> startswith (c # cs) ''gauth''"
  shows "restore_placeholders sep (c # cs) = c # restore_placeholders sep cs"
  using assms unfolding restore_placeholders_def
  by (simp add: replace_Cons_other step_reflect del: startswith_Cons replace.simps)

lemma restore_is_expand:
  assumes "sep = CHR 0x22 # sep'" and "CHR ''b'' \<notin> set sep'" and "CHR ''g'' \<notin> set sep'"
  shows "restore_placeholders sep s = expand sep s"
proof (induction s rule: length_induct)
  case (1 s)
  show ?case
  proof (cases rule: token_cases[of s])
    case nil
    then show ?thesis by (simp add: restore_placeholders_def)
  next
    case (vikr r)
    with 1 have "restore_placeholders sep r = expand sep r" by simp
    with vikr show ?thesis by (simp only: restore_vikr[OF assms] expand_vikr)
  next
    case (sandep r)
    with 1 have "restore_placeholders sep r = expand sep r" by simp
    with sandep show ?thesis by (simp only: restore_sandep[OF assms] expand_sandep)
  next
    case (arun r)
    with 1 have "restore_placeholders sep r = expand sep r" by simp
    with arun show ?thesis by (simp only: restore_arun[OF assms] expand_arun)
  next
    case (bindhu r)
    with 1 have "restore_placeholders sep r = expand sep r" by simp
    with bindhu show ?thesis by (simp only: restore_bindhu[OF assms] expand_bindhu)
  next
    case (gauth r)
    with 1 have "restore_placeholders sep r = expand sep r" by simp
    with gauth show ?thesis by (simp only: restore_gauth[OF assms] expand_gauth)
  next
    case (plain c cs)
    with 1 have "restore_placeholders sep cs = expand sep cs" by simp
    with plain show ?thesis
      by (simp only: restore_plain[OF assms(1) plain(2-6)] expand_plain[OF plain(2-6)])
  qed
qed

lemma replace_token:
  assumes "old \<noteq> []" and "\<not> startswith (t # ts @ r) old" and "hd old \<notin> set ts"
  shows "replace (t # ts @ r) old new = t # ts @ replace r old new"
  using assms by (simp add: replace_Cons_other replace_past del: replace.simps)

lemma expand_replace:
  assumes old: "old \<noteq> []"
    and tok: "\<And>y. expand sep (new @ y) = old @ expand sep y"
    and past: "\<And>y. expand sep (old @ y) = old @ expand sep y"
    and hd_old: "hd old \<notin> set ''ikrandeprunindhuauth''"
    and free: "clash_free ''ikr'' new" "clash_free ''andep'' new" "clash_free ''run'' new"
      "clash_free ''indhu'' new" "clash_free ''auth'' new"
  shows "expand sep (replace s old new) = expand sep s"
proof (induction s rule: length_induct)
  case (1 s)
  show ?case
  proof (cases "startswith s old")
    case True
    then obtain r where s: "s = old @ r" using startswithD by blast
    with old have "length r < length s" by (cases old) simp_all
    with 1 have "expand sep (replace r old new) = expand sep r" by simp
    then show ?thesis
      unfolding s by (simp only: replace_at[OF old] tok past)
  next
    case no: False
    show ?thesis
    proof (cases rule: token_cases[of s])
      case nil
      with old show ?thesis by simp
    next
      case (vikr r)
      with 1 have IH: "expand sep (replace r old new) = expand sep r" by simp
      have "replace (''vikr'' @ r) old new = ''vikr'' @ replace r old new"
        using replace_token[OF old, of "CHR ''v''" "''ikr''" r new] no hd_old vikr by simp
      then show ?thesis unfolding vikr by (simp only: expand_vikr IH)
    next
      case (sandep r)
      with 1 have IH: "expand sep (replace r old new) = expand sep r" by simp
      have "replace (''sandep'' @ r) old new = ''sandep'' @ replace r old new"
        using replace_token[OF old, of "CHR ''s''" "''andep''" r new] no hd_old sandep by simp
      then show ?thesis unfolding sandep by (simp only: expand_sandep IH)
    next
      case (arun r)
      with 1 have IH: "expand sep (replace r old new) = expand sep r" by simp
      have "replace (''arun'' @ r) old new = ''arun'' @ replace r old new"
        using replace_token[OF old, of "CHR ''a''" "''run''" r new] no hd_old arun by simp
      then show ?thesis unfolding arun by (simp only: expand_arun IH)
    next
      case (bindhu r)
      with 1 have IH: "expand sep (replace r old new) = expand sep r" by simp
      have "replace (''bindhu'' @ r) old new = ''bindhu'' @ replace r old new"
        using replace_token[OF old, of "CHR ''b''" "''indhu''" r new] no hd_old bindhu by simp
      then show ?thesis unfolding bindhu by (simp only: expand_bindhu IH)
    next
      case (gauth r)
      with 1 have IH: "expand sep (replace r old new) = expand sep r" by simp
      have "replace (''gauth'' @ r) old new = ''gauth'' @ replace r old new"
        using replace_token[OF old, of "CHR ''g''" "''auth''" r new] no hd_old gauth by simp
      then show ?thesis unfolding gauth by (simp only: expand_gauth IH)
    next
      case (plain c cs)
      with 1 have IH: "expand sep (replace cs old new) = expand sep cs" by simp
      from no plain(1) have step: "replace (c # cs) old new = c # replace cs old new"
        using replace_Cons_other[OF old] by simp
      have "expand sep (c # replace cs old new) = c # expand sep (replace cs old new)"
        by (rule expand_plain)
          (rule step_reflect[OF _ _ old], fact, fact)+
      then show ?thesis
        unfolding plain(1) step by (simp only: IH expand_plain[OF plain(2-6)])
    qed
  qed
qed

lemma expand_to_vikr: \<open>expand sep (replace s ''{"'' ''vikr'') = expand sep s\<close>
  by (rule expand_replace) (simp_all add: expand.simps(2))

lemma expand_to_sandep: \<open>expand sep (replace s ''","'' ''sandep'') = expand sep s\<close>
  by (rule expand_replace) (simp_all add: expand.simps(2))

lemma expand_to_arun: \<open>expand ''" : "'' (replace s ''" : "'' ''arun'') = expand ''" : "'' s\<close>
  by (rule expand_replace) (simp_all add: expand.simps(2))

lemma expand_to_bindhu: \<open>expand sep (replace s ''":"'' ''bindhu'') = expand sep s\<close>
  by (rule expand_replace) (simp_all add: expand.simps(2))

lemma expand_to_gauth: \<open>expand sep (replace s ''"}'' ''gauth'') = expand sep s\<close>
  by (rule expand_replace) (simp_all add: expand.simps(2))

lemma expand_no_placeholder:
  assumes "\<not> is_in ''vikr'' s" and "\<not> is_in ''sandep'' s" and "\<not> is_in ''arun'' s"
    and "\<not> is_in ''bindhu'' s" and "\<not> is_in ''gauth'' s"
  shows "expand sep s = s"
  using assms
proof (induction s)
  case Nil
  show ?case by simp
next
  case (Cons c cs)
  then have "expand sep cs = cs" by simp
  moreover have "expand sep (c # cs) = c # expand sep cs"
    by (rule expand_plain) (use Cons.prems in \<open>simp_all del: startswith_Cons\<close>)
  ultimately show ?case by simp
qed

lemma to_placeholders_unfold:
  \<open>to_placeholders j =
     replace (replace (replace (replace (replace j ''{"'' ''vikr'') ''","'' ''sandep'')
       ''" : "'' ''arun'') ''":"'' ''bindhu'') ''"}'' ''gauth''\<close>
  by (simp add: to_placeholders_def placeholder_table_def)

lemma expand_to_placeholders:
  assumes "\<not> is_in ''vikr'' j" and "\<not> is_in ''sandep'' j" and "\<not> is_in ''arun'' j"
    and "\<not> is_in ''bindhu'' j" and "\<not> is_in ''gauth'' j"
  shows \<open>expand ''" : "'' (to_placeholders j) = j\<close>
  unfolding to_placeholders_unfold
  by (simp only: expand_to_gauth expand_to_bindhu expand_to_arun expand_to_sandep expand_to_vikr
      expand_no_placeholder[OF assms])

lemma is_in_self: "is_in t (t @ r)"
proof (cases "t @ r")
  case Nil
  then show ?thesis by simp
next
  case (Cons a l)
  from startswith_self[of t r] show ?thesis unfolding Cons by simp
qed

lemma is_in_suffix: "is_in t r \<Longrightarrow> is_in t (p @ r)"
  by (induction p) simp_all

lemma expand_without_arun:
  assumes "\<not> is_in ''arun'' s"
  shows "expand sep s = expand sep' s"
  using assms
proof (induction s rule: length_induct)
  case (1 s)
  show ?case
  proof (cases rule: token_cases[of s])
    case nil
    then show ?thesis by simp
  next
    case (vikr r)
    with "1.prems" have "\<not> is_in ''arun'' r" using is_in_suffix by blast
    with 1 vikr have "expand sep r = expand sep' r" by simp
    then show ?thesis unfolding vikr by (simp only: expand_vikr)
  next
    case (sandep r)
    with "1.prems" have "\<not> is_in ''arun'' r" using is_in_suffix by blast
    with 1 sandep have "expand sep r = expand sep' r" by simp
    then show ?thesis unfolding sandep by (simp only: expand_sandep)
  next
    case (arun r)
    with "1.prems" show ?thesis using is_in_self by blast
  next
    case (bindhu r)
    with "1.prems" have "\<not> is_in ''arun'' r" using is_in_suffix by blast
    with 1 bindhu have "expand sep r = expand sep' r" by simp
    then show ?thesis unfolding bindhu by (simp only: expand_bindhu)
  next
    case (gauth r)
    with "1.prems" have "\<not> is_in ''arun'' r" using is_in_suffix by blast
    with 1 gauth have "expand sep r = expand sep' r" by simp
    then show ?thesis unfolding gauth by (simp only: expand_gauth)
  next
    case (plain c cs)
    with "1.prems" have "\<not> is_in ''arun'' cs" by simp
    with 1 plain(1) have "expand sep cs = expand sep' cs" by simp
    then show ?thesis unfolding plain(1) by (simp only: expand_plain[OF plain(2-6)])
  qed
qed

lemma set_replace: "set (replace s old new) \<subseteq> set s \<union> set new"
proof (induction s old new rule: replace.induct)
  case (1 old new)
  show ?case by auto
next
  case (2 c cs old new)
  have "set (drop (length old) (c # cs)) \<subseteq> set (c # cs)" by (rule set_drop_subset)
  with 2 show ?case by (auto simp del: startswith_Cons)
qed

lemma backslash_replace:
  "backslash \<notin> set s \<Longrightarrow> backslash \<notin> set new \<Longrightarrow> backslash \<notin> set (replace s old new)"
  using set_replace[of s old new] by blast

section \<open>The normalizer on text whose double quotes are all structural\<close>

lemma backslash_to_placeholders:
  assumes "backslash \<notin> set j"
  shows "backslash \<notin> set (to_placeholders j)"
  unfolding to_placeholders_unfold
  by (intro backslash_replace assms) (simp_all add: backslash_def)

lemma backslash_restore:
  assumes "backslash \<notin> set s" and "backslash \<notin> set sep"
  shows "backslash \<notin> set (restore_placeholders sep s)"
  unfolding restore_placeholders_def
  by (intro backslash_replace assms) (simp_all add: backslash_def)

lemma map_other_char: "c \<notin> set s \<Longrightarrow> map (\<lambda>x. if x = c then d else x) s = s"
  by (induction s) auto

lemma remove_double_quotes_clean:
  assumes "backslash \<notin> set j" and "dquote \<notin> set (to_placeholders j)"
  shows \<open>remove_double_quotes j = restore_placeholders ''"  :  "'' (to_placeholders j)\<close>
proof -
  let ?skel = "to_placeholders j"
  have strip: "replace ?skel [CHR 0x22] [] = ?skel"
    using assms(2) by (auto simp: replace_char_delete dquote_def filter_id_conv)
  have "backslash \<notin> set (restore_placeholders ''\"  :  \"'' ?skel)"
    by (intro backslash_restore backslash_to_placeholders assms) (simp add: backslash_def)
  then have hash: "replace (restore_placeholders ''\"  :  \"'' ?skel) [backslash] ''#''
      = restore_placeholders ''\"  :  \"'' ?skel"
    unfolding replace_char_char by (rule map_other_char)
  have "remove_double_quotes j
      = replace (restore_placeholders ''\"  :  \"'' (replace ?skel [CHR 0x22] [])) [backslash] ''#''"
    by (simp only: remove_double_quotes_def to_placeholders_unfold restore_placeholders_def Let_def)
  then show ?thesis by (simp only: strip hash)
qed

section \<open>The scanner consumes its input\<close>

lemma length_skip_ws: "length (skip_ws s) \<le> length s"
  unfolding skip_ws_def by (rule length_dropWhile_le)

lemma length_tl_skip_ws: "length (tl (skip_ws s)) \<le> length s"
  using length_skip_ws[of s] by simp

lemma append_char_Inr:
  "append_char ch r = Inr (str, rest) \<Longrightarrow> \<exists>str'. r = Inr (str', rest)"
  by (auto simp: append_char_def split: sum.splits)

lemma append_char_Inl: "append_char ch r = Inl e \<Longrightarrow> r = Inl e"
  by (auto simp: append_char_def split: sum.splits)

lemma scanstring_shorter: "scanstring cs = Inr (str, rest) \<Longrightarrow> length rest < length cs"
proof (induction cs arbitrary: str rule: scanstring.induct)
  case 1
  then show ?case by simp
next
  case (2 c cs)
  show ?case
  proof (cases "c = dquote")
    case True
    with "2.prems" show ?thesis by simp
  next
    case nq: False
    show ?thesis
    proof (cases "c = backslash")
      case False
      with nq "2.prems" obtain str' where "scanstring cs = Inr (str', rest)"
        by (auto split: if_splits dest: append_char_Inr)
      with "2.IH"(5)[OF nq False] False nq "2.prems" show ?thesis
        by (fastforce split: if_splits)
    next
      case bs: True
      show ?thesis
      proof (cases cs)
        case Nil
        with nq bs "2.prems" show ?thesis by simp
      next
        case (Cons esc rest0)
        show ?thesis
        proof (cases "esc = CHR ''u''")
          case False
          with nq bs Cons "2.prems" obtain str' where "scanstring rest0 = Inr (str', rest)"
            by (auto split: option.splits dest: append_char_Inr)
          from "2.IH"(1)[OF nq bs Cons False _ this] False nq bs Cons "2.prems"
          show ?thesis by (auto split: option.splits)
        next
          case u: True
          from nq bs Cons u "2.prems" obtain uni where uni: "decode_uXXXX rest0 = Some uni"
            by (auto split: option.splits)
          show ?thesis
          proof (cases "0xD800 \<le> uni \<and> uni \<le> 0xDBFF \<and> take 2 (drop 4 rest0) = [backslash, CHR ''u'']")
            case False
            with nq bs Cons u uni "2.prems" obtain str' where
              s: "scanstring (drop 4 rest0) = Inr (str', rest)"
              by (auto dest: append_char_Inr)
            from "2.IH"(4)[OF nq bs Cons _ uni False s] u
            have "length rest < length (drop 4 rest0)" by simp
            with Cons show ?thesis by simp
          next
            case pair: True
            from nq bs Cons u uni pair "2.prems" obtain uni2 where
              uni2: "decode_uXXXX (drop 6 rest0) = Some uni2"
              by (auto split: option.splits)
            show ?thesis
            proof (cases "0xDC00 \<le> uni2 \<and> uni2 \<le> 0xDFFF")
              case True
              with nq bs Cons u uni pair uni2 "2.prems" obtain str' where
                s: "scanstring (drop 10 rest0) = Inr (str', rest)"
                by (auto dest: append_char_Inr)
              from "2.IH"(2)[OF nq bs Cons _ uni pair uni2 True s] u
              have "length rest < length (drop 10 rest0)" by simp
              with Cons show ?thesis by simp
            next
              case False
              with nq bs Cons u uni pair uni2 "2.prems" obtain str' where
                s: "scanstring (drop 4 rest0) = Inr (str', rest)"
                by (auto dest: append_char_Inr)
              from "2.IH"(3)[OF nq bs Cons _ uni pair uni2 False s] u
              have "length rest < length (drop 4 rest0)" by simp
              with Cons show ?thesis by simp
            qed
          qed
        qed
      qed
    qed
  qed
qed

lemma scanstring_error: "scanstring cs = Inl e \<Longrightarrow> e = JSONDecodeError"
proof (induction cs rule: scanstring.induct)
  case 1
  then show ?case by simp
next
  case (2 c cs)
  show ?case
  proof (cases "c = dquote")
    case True
    with "2.prems" show ?thesis by simp
  next
    case nq: False
    show ?thesis
    proof (cases "c = backslash")
      case False
      with nq "2.prems" "2.IH"(5)[OF nq False] show ?thesis
        by (auto split: if_splits dest: append_char_Inl)
    next
      case bs: True
      show ?thesis
      proof (cases cs)
        case Nil
        with nq bs "2.prems" show ?thesis by simp
      next
        case (Cons esc rest0)
        show ?thesis
        proof (cases "esc = CHR ''u''")
          case False
          with nq bs Cons "2.prems" "2.IH"(1)[OF nq bs Cons False] show ?thesis
            by (auto split: option.splits dest: append_char_Inl)
        next
          case u: True
          show ?thesis
          proof (cases "decode_uXXXX rest0")
            case None
            with nq bs Cons u "2.prems" show ?thesis by simp
          next
            case (Some uni)
            show ?thesis
            proof (cases "0xD800 \<le> uni \<and> uni \<le> 0xDBFF \<and> take 2 (drop 4 rest0) = [backslash, CHR ''u'']")
              case False
              with nq bs Cons u Some "2.prems" have "scanstring (drop 4 rest0) = Inl e"
                by (auto dest: append_char_Inl)
              with "2.IH"(4)[OF nq bs Cons _ Some False] u show ?thesis by simp
            next
              case pair: True
              show ?thesis
              proof (cases "decode_uXXXX (drop 6 rest0)")
                case None
                with nq bs Cons u Some pair "2.prems" show ?thesis by simp
              next
                case uni2: (Some uni2)
                show ?thesis
                proof (cases "0xDC00 \<le> uni2 \<and> uni2 \<le> 0xDFFF")
                  case True
                  with nq bs Cons u Some pair uni2 "2.prems"
                  have "scanstring (drop 10 rest0) = Inl e"
                    by (auto dest: append_char_Inl)
                  with "2.IH"(2)[OF nq bs Cons _ Some pair uni2 True] u show ?thesis by simp
                next
                  case False
                  with nq bs Cons u Some pair uni2 "2.prems"
                  have "scanstring (drop 4 rest0) = Inl e"
                    by (auto dest: append_char_Inl)
                  with "2.IH"(3)[OF nq bs Cons _ Some pair uni2 False] u show ?thesis by simp
                qed
              qed
            qed
          qed
        qed
      qed
    qed
  qed
qed

lemma number_integer_le: "length (number_integer s) \<le> length s"
  by (cases s) (auto simp: number_integer_def startswith_def length_takeWhile_le le_SucI)

lemma match_number_shorter:
  assumes "match_number s = Inr (v, rest)"
  shows "length rest < length s"
proof -
  define s1 where "s1 = drop (length (number_sign s)) s"
  define i where "i = number_integer s1"
  from assms have "i \<noteq> []"
    unfolding match_number_def Let_def i_def s1_def by (simp split: if_splits)
  then have pos: "0 < length i" by simp
  from assms have "length rest \<le> length s1 - length i"
    unfolding match_number_def Let_def i_def s1_def by (auto split: if_splits)
  moreover have "length i \<le> length s1" unfolding i_def by (rule number_integer_le)
  moreover have "length s1 \<le> length s" unfolding s1_def by simp
  ultimately show ?thesis using pos by linarith
qed

lemma startswith_length: "startswith s p \<Longrightarrow> length p \<le> length s"
proof -
  assume "startswith s p"
  then have "length (take (length p) s) = length p"
    by (simp add: startswith_def)
  then show ?thesis by simp
qed

lemma scan_constant_shorter:
  assumes "scan_constant s = Inr (v, r)"
  shows "length r < length s"
  using assms unfolding scan_constant_def
  by (auto split: if_splits dest!: startswith_length match_number_shorter)

lemma scan_once_step_shorter:
  assumes obj: "\<And>limit pairs s v r. parse_object n limit pairs s = Inr (v, r) \<Longrightarrow> length r < length s"
    and arr: "\<And>limit vals s v r. parse_array n limit vals s = Inr (v, r) \<Longrightarrow> length r < length s"
    and res: "scan_once (Suc n) limit s = Inr (v, r)"
  shows "length r < length s"
proof (cases s)
  case Nil
  with res show ?thesis by simp
next
  case (Cons c cs)
  have ws: "length (skip_ws cs) \<le> length cs" by (rule length_skip_ws)
  have tlws: "length (tl (skip_ws cs)) \<le> length cs" by (rule length_tl_skip_ws)
  show ?thesis
  proof (cases "c = dquote")
    case True
    with res Cons obtain str where "scanstring cs = Inr (str, r)"
      by (auto split: sum.splits)
    from scanstring_shorter[OF this] Cons show ?thesis by simp
  next
    case nq: False
    show ?thesis
    proof (cases "c = CHR ''{''")
      case True
      show ?thesis
      proof (cases "startswith (skip_ws cs) ''}''")
        case e: True
        with res Cons nq True have "r = tl (skip_ws cs)" by (simp split: if_splits)
        with tlws Cons show ?thesis by simp
      next
        case False
        with res Cons nq True have "parse_object n (limit - 1) [] (skip_ws cs) = Inr (v, r)"
          by (simp split: if_splits)
        from obj[OF this] ws Cons show ?thesis by simp
      qed
    next
      case nb: False
      show ?thesis
      proof (cases "c = CHR ''[''")
        case True
        show ?thesis
        proof (cases "startswith (skip_ws cs) '']''")
          case e: True
          with res Cons nq nb True have "r = tl (skip_ws cs)" by (simp split: if_splits)
          with tlws Cons show ?thesis by simp
        next
          case False
          with res Cons nq nb True have "parse_array n (limit - 1) [] (skip_ws cs) = Inr (v, r)"
            by (simp split: if_splits)
          from arr[OF this] ws Cons show ?thesis by simp
        qed
      next
        case nk: False
        with res Cons nq nb have "scan_constant s = Inr (v, r)" by simp
        then show ?thesis by (rule scan_constant_shorter)
      qed
    qed
  qed
qed

lemma parse_object_step_shorter:
  assumes scan: "\<And>limit s v r. scan_once n limit s = Inr (v, r) \<Longrightarrow> length r < length s"
    and obj: "\<And>limit pairs s v r. parse_object n limit pairs s = Inr (v, r) \<Longrightarrow> length r < length s"
    and res: "parse_object (Suc n) limit pairs s = Inr (v, r)"
  shows "length r < length s"
proof -
  from res have q: "startswith s [dquote]"
    by (simp split: if_splits)
  then have s: "s \<noteq> []" by (auto simp: startswith_def)
  from res q obtain key rest where key: "scanstring (tl s) = Inr (key, rest)"
    by (auto split: sum.splits)
  from scanstring_shorter[OF key] s have l1: "length rest < length s"
    by (cases s) auto
  from res q key have colon: "startswith (skip_ws rest) '':''"
    by (simp split: if_splits)
  let ?s1 = "skip_ws (tl (skip_ws rest))"
  have l2: "length ?s1 \<le> length rest"
    using length_skip_ws[of "tl (skip_ws rest)"] length_tl_skip_ws[of rest] by simp
  from res q key colon obtain val rest' where val: "scan_once n limit ?s1 = Inr (val, rest')"
    by (auto split: sum.splits)
  from scan[OF val] have l3: "length rest' < length ?s1" .
  have l4: "length (tl (skip_ws rest')) \<le> length rest'" by (rule length_tl_skip_ws)
  have l5: "length (skip_ws (tl (skip_ws rest'))) \<le> length rest'"
    using length_skip_ws[of "tl (skip_ws rest')"] l4 by simp
  from res q key colon val consider
      "r = tl (skip_ws rest')"
    | "parse_object n limit (AList.update key val pairs) (skip_ws (tl (skip_ws rest'))) = Inr (v, r)"
    by (simp add: Let_def split: if_splits)
  then show ?thesis
  proof cases
    case 1
    with l1 l2 l3 l4 show ?thesis by simp
  next
    case 2
    from obj[OF 2] l1 l2 l3 l5 show ?thesis by simp
  qed
qed

lemma parse_array_step_shorter:
  assumes scan: "\<And>limit s v r. scan_once n limit s = Inr (v, r) \<Longrightarrow> length r < length s"
    and arr: "\<And>limit vals s v r. parse_array n limit vals s = Inr (v, r) \<Longrightarrow> length r < length s"
    and res: "parse_array (Suc n) limit vals s = Inr (v, r)"
  shows "length r < length s"
proof -
  from res obtain val rest' where val: "scan_once n limit s = Inr (val, rest')"
    by (auto split: sum.splits)
  from scan[OF val] have l3: "length rest' < length s" .
  have l4: "length (tl (skip_ws rest')) \<le> length rest'" by (rule length_tl_skip_ws)
  have l5: "length (skip_ws (tl (skip_ws rest'))) \<le> length rest'"
    using length_skip_ws[of "tl (skip_ws rest')"] l4 by simp
  from res val consider
      "r = tl (skip_ws rest')"
    | "parse_array n limit (vals @ [val]) (skip_ws (tl (skip_ws rest'))) = Inr (v, r)"
    by (simp add: Let_def split: if_splits)
  then show ?thesis
  proof cases
    case 1
    with l3 l4 show ?thesis by simp
  next
    case 2
    from arr[OF 2] l3 l5 show ?thesis by simp
  qed
qed

lemma parser_shorter:
  "(\<forall>limit s v r. scan_once n limit s = Inr (v, r) \<longrightarrow> length r < length s)
   \<and> (\<forall>limit pairs s v r. parse_object n limit pairs s = Inr (v, r) \<longrightarrow> length r < length s)
   \<and> (\<forall>limit vals s v r. parse_array n limit vals s = Inr (v, r) \<longrightarrow> length r < length s)"
proof (induction n)
  case 0
  show ?case by simp
next
  case (Suc n)
  from Suc have scan: "\<And>limit s v r. scan_once n limit s = Inr (v, r) \<Longrightarrow> length r < length s"
    and obj: "\<And>limit pairs s v r. parse_object n limit pairs s = Inr (v, r) \<Longrightarrow> length r < length s"
    and arr: "\<And>limit vals s v r. parse_array n limit vals s = Inr (v, r) \<Longrightarrow> length r < length s"
    by blast+
  show ?case
  proof (intro conjI allI impI)
    fix limit s v r
    assume "scan_once (Suc n) limit s = Inr (v, r)"
    with obj arr show "length r < length s" by (rule scan_once_step_shorter)
  next
    fix limit pairs s v r
    assume "parse_object (Suc n) limit pairs s = Inr (v, r)"
    with scan obj show "length r < length s" by (rule parse_object_step_shorter)
  next
    fix limit vals s v r
    assume "parse_array (Suc n) limit vals s = Inr (v, r)"
    with scan arr show "length r < length s" by (rule parse_array_step_shorter)
  qed
qed

lemma scan_once_shorter: "scan_once n limit s = Inr (v, r) \<Longrightarrow> length r < length s"
  using parser_shorter by blast

lemma parse_object_shorter: "parse_object n limit pairs s = Inr (v, r) \<Longrightarrow> length r < length s"
  using parser_shorter by blast

lemma parse_array_shorter: "parse_array n limit vals s = Inr (v, r) \<Longrightarrow> length r < length s"
  using parser_shorter by blast

section \<open>The fuel of the scanner\<close>

lemma scan_once_step_fuel:
  assumes obj: "\<And>limit pairs s'. length s' < length s \<Longrightarrow>
      parse_object n limit pairs s' = parse_object m limit pairs s'"
    and arr: "\<And>limit vals s'. length s' < length s \<Longrightarrow>
      parse_array n limit vals s' = parse_array m limit vals s'"
  shows "scan_once (Suc n) limit s = scan_once (Suc m) limit s"
proof (cases s)
  case Nil
  then show ?thesis by simp
next
  case (Cons c cs)
  have "length (skip_ws cs) < length s"
    using length_skip_ws[of cs] Cons by simp
  then have "parse_object n (limit - 1) [] (skip_ws cs) = parse_object m (limit - 1) [] (skip_ws cs)"
    and "parse_array n (limit - 1) [] (skip_ws cs) = parse_array m (limit - 1) [] (skip_ws cs)"
    by (rule obj, rule arr)
  with Cons show ?thesis by simp
qed

lemma parse_object_step_fuel:
  assumes scan: "\<And>limit s'. length s' < length s \<Longrightarrow> scan_once n limit s' = scan_once m limit s'"
    and obj: "\<And>limit pairs s'. length s' < length s \<Longrightarrow>
      parse_object n limit pairs s' = parse_object m limit pairs s'"
  shows "parse_object (Suc n) limit pairs s = parse_object (Suc m) limit pairs s"
proof (cases "startswith s [dquote]")
  case False
  then show ?thesis by simp
next
  case q: True
  then have s: "s \<noteq> []" by (auto simp: startswith_def)
  show ?thesis
  proof (cases "scanstring (tl s)")
    case (Inl e)
    with q show ?thesis by simp
  next
    case (Inr kr)
    obtain key rest where kr: "kr = (key, rest)" by (cases kr)
    from scanstring_shorter[OF Inr[unfolded kr]] s have l1: "length rest < length s"
      by (cases s) auto
    let ?s1 = "skip_ws (tl (skip_ws rest))"
    have l2: "length ?s1 \<le> length rest"
      using length_skip_ws[of "tl (skip_ws rest)"] length_tl_skip_ws[of rest] by simp
    with l1 have "length ?s1 < length s" by simp
    then have eq1: "scan_once n limit ?s1 = scan_once m limit ?s1" by (rule scan)
    show ?thesis
    proof (cases "scan_once m limit ?s1")
      case (Inl e)
      with q Inr kr eq1 show ?thesis by simp
    next
      case val: (Inr vr)
      obtain val rest' where vr: "vr = (val, rest')" by (cases vr)
      from scan_once_shorter[OF val[unfolded vr]] have l3: "length rest' < length ?s1" .
      let ?s2 = "skip_ws (tl (skip_ws rest'))"
      have "length ?s2 \<le> length rest'"
        using length_skip_ws[of "tl (skip_ws rest')"] length_tl_skip_ws[of rest'] by simp
      with l1 l2 l3 have "length ?s2 < length s" by simp
      then have "parse_object n limit (AList.update key val pairs) ?s2
          = parse_object m limit (AList.update key val pairs) ?s2"
        by (rule obj)
      with q Inr kr eq1 val vr show ?thesis by (simp add: Let_def)
    qed
  qed
qed

lemma parse_array_step_fuel:
  assumes scan: "scan_once n limit s = scan_once m limit s"
    and arr: "\<And>limit vals s'. length s' < length s \<Longrightarrow>
      parse_array n limit vals s' = parse_array m limit vals s'"
  shows "parse_array (Suc n) limit vals s = parse_array (Suc m) limit vals s"
proof (cases "scan_once m limit s")
  case (Inl e)
  with scan show ?thesis by simp
next
  case val: (Inr vr)
  obtain val rest' where vr: "vr = (val, rest')" by (cases vr)
  from scan_once_shorter[OF val[unfolded vr]] have l3: "length rest' < length s" .
  let ?s2 = "skip_ws (tl (skip_ws rest'))"
  have "length ?s2 \<le> length rest'"
    using length_skip_ws[of "tl (skip_ws rest')"] length_tl_skip_ws[of rest'] by simp
  with l3 have "length ?s2 < length s" by simp
  then have "parse_array n limit (vals @ [val]) ?s2 = parse_array m limit (vals @ [val]) ?s2"
    by (rule arr)
  with scan val vr show ?thesis by (simp add: Let_def)
qed

lemma parser_fuel:
  "(\<forall>m limit s. 2 * length s < n \<and> 2 * length s < m \<longrightarrow>
      scan_once n limit s = scan_once m limit s)
   \<and> (\<forall>m limit pairs s. 2 * length s + 1 < n \<and> 2 * length s + 1 < m \<longrightarrow>
      parse_object n limit pairs s = parse_object m limit pairs s)
   \<and> (\<forall>m limit vals s. 2 * length s + 1 < n \<and> 2 * length s + 1 < m \<longrightarrow>
      parse_array n limit vals s = parse_array m limit vals s)"
proof (induction n)
  case 0
  show ?case by simp
next
  case (Suc n)
  from Suc have scan: "\<And>m limit s. 2 * length s < n \<Longrightarrow> 2 * length s < m \<Longrightarrow>
      scan_once n limit s = scan_once m limit s"
    and obj: "\<And>m limit pairs s. 2 * length s + 1 < n \<Longrightarrow> 2 * length s + 1 < m \<Longrightarrow>
      parse_object n limit pairs s = parse_object m limit pairs s"
    and arr: "\<And>m limit vals s. 2 * length s + 1 < n \<Longrightarrow> 2 * length s + 1 < m \<Longrightarrow>
      parse_array n limit vals s = parse_array m limit vals s"
    by blast+
  show ?case
  proof (intro conjI allI impI)
    fix m limit and s :: string
    assume b: "2 * length s < Suc n \<and> 2 * length s < m"
    then obtain m' where m: "m = Suc m'" by (cases m) auto
    have "scan_once (Suc n) limit s = scan_once (Suc m') limit s"
    proof (rule scan_once_step_fuel)
      fix limit pairs and s' :: string
      assume "length s' < length s"
      with b m have "2 * length s' + 1 < n" "2 * length s' + 1 < m'" by simp_all
      then show "parse_object n limit pairs s' = parse_object m' limit pairs s'" by (rule obj)
    next
      fix limit vals and s' :: string
      assume "length s' < length s"
      with b m have "2 * length s' + 1 < n" "2 * length s' + 1 < m'" by simp_all
      then show "parse_array n limit vals s' = parse_array m' limit vals s'" by (rule arr)
    qed
    with m show "scan_once (Suc n) limit s = scan_once m limit s" by simp
  next
    fix m limit pairs and s :: string
    assume b: "2 * length s + 1 < Suc n \<and> 2 * length s + 1 < m"
    then obtain m' where m: "m = Suc m'" by (cases m) auto
    have "parse_object (Suc n) limit pairs s = parse_object (Suc m') limit pairs s"
    proof (rule parse_object_step_fuel)
      fix limit and s' :: string
      assume "length s' < length s"
      with b m have "2 * length s' < n" "2 * length s' < m'" by simp_all
      then show "scan_once n limit s' = scan_once m' limit s'" by (rule scan)
    next
      fix limit pairs and s' :: string
      assume "length s' < length s"
      with b m have "2 * length s' + 1 < n" "2 * length s' + 1 < m'" by simp_all
      then show "parse_object n limit pairs s' = parse_object m' limit pairs s'" by (rule obj)
    qed
    with m show "parse_object (Suc n) limit pairs s = parse_object m limit pairs s" by simp
  next
    fix m limit vals and s :: string
    assume b: "2 * length s + 1 < Suc n \<and> 2 * length s + 1 < m"
    then obtain m' where m: "m = Suc m'" by (cases m) auto
    have "parse_array (Suc n) limit vals s = parse_array (Suc m') limit vals s"
    proof (rule parse_array_step_fuel)
      from b m have "2 * length s < n" "2 * length s < m'" by simp_all
      then show "scan_once n limit s = scan_once m' limit s" by (rule scan)
    next
      fix limit vals and s' :: string
      assume "length s' < length s"
      with b m have "2 * length s' + 1 < n" "2 * length s' + 1 < m'" by simp_all
      then show "parse_array n limit vals s' = parse_array m' limit vals s'" by (rule arr)
    qed
    with m show "parse_array (Suc n) limit vals s = parse_array m limit vals s" by simp
  qed
qed

text \<open>
  Any two amounts of fuel above twice the length of the text give the same result:
  the fuel of \<open>json_loads\<close> is never what stops the scanner.
\<close>

lemma scan_once_fuel:
  "2 * length s < n \<Longrightarrow> 2 * length s < m \<Longrightarrow> scan_once n limit s = scan_once m limit s"
  using parser_fuel by blast

lemma json_loads_fuel:
  assumes "2 * length s + 2 \<le> n"
  shows "json_loads limit s =
     (case scan_once n limit (skip_ws s) of
        Inl e \<Rightarrow> Inl e
      | Inr (obj, rest) \<Rightarrow> if skip_ws rest = [] then Inr obj else Inl JSONDecodeError)"
proof -
  have "2 * length (skip_ws s) < 2 * length s + 2" "2 * length (skip_ws s) < n"
    using length_skip_ws[of s] assms by simp_all
  then have "scan_once (2 * length s + 2) limit (skip_ws s) = scan_once n limit (skip_ws s)"
    by (rule scan_once_fuel)
  then show ?thesis by (simp add: json_loads_def)
qed

lemma same_result_Inl [simp]: "same_result (Inl e) r \<longleftrightarrow> r = Inl e"
  by (simp add: same_result_def)

lemma same_result_Inr [simp]:
  "same_result (Inr (v, rn)) r \<longleftrightarrow> (\<exists>rw. r = Inr (v, rw) \<and> widened False rn rw)"
  by (auto simp: same_result_def split: sum.splits)

lemma is_ws_dquote [simp]: "\<not> is_ws dquote"
  by (simp add: is_ws_def dquote_def)

lemma is_digit_not_ws: "is_digit c \<Longrightarrow> \<not> is_ws c"
  by (auto simp: is_ws_def is_digit_def)

lemma is_digit_not_dquote: "is_digit c \<Longrightarrow> c \<noteq> dquote"
  by (auto simp: dquote_def is_digit_def)

lemma skip_ws_simps [simp]:
  "skip_ws [] = []"
  "is_ws c \<Longrightarrow> skip_ws (c # cs) = skip_ws cs"
  "\<not> is_ws c \<Longrightarrow> skip_ws (c # cs) = c # cs"
  by (simp_all add: skip_ws_def)

lemma widened_Nil1: "widened q [] w \<Longrightarrow> w = []"
  by (erule widened.cases) auto

lemma widened_Nil2: "widened q n [] \<Longrightarrow> n = []"
  by (erule widened.cases) auto

lemma widened_out_cases:
  "widened False (c # n) w \<Longrightarrow>
     (is_ws c \<and> (\<exists>d w'. w = d # w' \<and> is_ws d))
     \<or> (\<not> is_ws c \<and> c \<noteq> dquote \<and> (\<exists>w'. w = c # w' \<and> widened False n w'))
     \<or> (c = dquote \<and> (\<exists>w'. w = dquote # w' \<and> widened True n w'))"
  by (erule widened.cases) auto

lemma widened_outE [consumes 1, case_names ws plain quote]:
  assumes "widened False (c # n) w"
  obtains (ws) d w' where "is_ws c" and "w = d # w'" and "is_ws d"
  | (plain) w' where "\<not> is_ws c" and "c \<noteq> dquote" and "w = c # w'" and "widened False n w'"
  | (quote) w' where "c = dquote" and "w = dquote # w'" and "widened True n w'"
proof -
  from widened_out_cases[OF assms] consider
      (a) d w' where "is_ws c" "w = d # w'" "is_ws d"
    | (b) w' where "\<not> is_ws c" "c \<noteq> dquote" "w = c # w'" "widened False n w'"
    | (c) w' where "c = dquote" "w = dquote # w'" "widened True n w'"
    by blast
  then show thesis
  proof cases
    case a
    then show ?thesis by (rule ws)
  next
    case b
    then show ?thesis by (rule plain)
  next
    case c
    then show ?thesis by (rule quote)
  qed
qed

lemma widened_skip_ws_aux:
  assumes "widened q n w" and "\<not> q"
  shows "widened False (skip_ws n) (skip_ws w)"
  using assms
proof (induction rule: widened.induct)
  case (nil q)
  show ?case by (simp add: widened.nil)
next
  case (same q n w c)
  then show ?case by (cases "is_ws c") (auto intro: widened.same)
next
  case (quote q n w)
  then show ?case by (auto intro: widened.quote)
next
  case (wider c n w d)
  then show ?case by simp
qed

lemma widened_skip_ws: "widened False n w \<Longrightarrow> widened False (skip_ws n) (skip_ws w)"
  using widened_skip_ws_aux[of False n w] by simp

lemma widened_skip_ws_Nil:
  assumes "widened False n w"
  shows "skip_ws n = [] \<longleftrightarrow> skip_ws w = []"
  using widened_skip_ws[OF assms] widened_Nil1 widened_Nil2 by metis

lemma widened_startswith:
  assumes "widened False n w" and "\<forall>c\<in>set lit. \<not> is_ws c \<and> c \<noteq> dquote"
  shows "startswith n lit = startswith w lit
    \<and> (startswith n lit \<longrightarrow> widened False (drop (length lit) n) (drop (length lit) w))"
  using assms
proof (induction lit arbitrary: n w)
  case Nil
  then show ?case by simp
next
  case (Cons x xs)
  show ?case
  proof (cases n)
    case Nil
    with Cons.prems(1) have "w = []" by (auto dest: widened_Nil1)
    with Nil show ?thesis by simp
  next
    case n: (Cons c n')
    from Cons.prems(1)[unfolded n] show ?thesis
    proof (cases rule: widened_outE)
      case (ws d w')
      with Cons.prems(2) n show ?thesis by auto
    next
      case (plain w')
      from Cons.IH[OF plain(4)] Cons.prems(2) plain(3) n show ?thesis by auto
    next
      case (quote w')
      with Cons.prems(2) n show ?thesis by auto
    qed
  qed
qed

lemma widened_digits_aux:
  assumes "widened q n w" and "\<not> q"
  shows "takeWhile is_digit n = takeWhile is_digit w
    \<and> widened False (dropWhile is_digit n) (dropWhile is_digit w)"
  using assms
proof (induction rule: widened.induct)
  case (nil q)
  show ?case by (simp add: widened.nil)
next
  case (same q n w c)
  then show ?case by (cases "is_digit c") (auto intro: widened.same)
next
  case (quote q n w)
  then show ?case by (auto intro: widened.quote dest: is_digit_not_dquote)
next
  case (wider c n w d)
  then show ?case by (auto intro: widened.wider dest: is_digit_not_ws)
qed

lemma widened_digits:
  assumes "widened False n w"
  shows "takeWhile is_digit n = takeWhile is_digit w"
    and "widened False (dropWhile is_digit n) (dropWhile is_digit w)"
  using widened_digits_aux[OF assms] by simp_all

lemma same_result_append_char:
  "same_result r1 r2 \<Longrightarrow> same_result (append_char ch r1) (append_char ch r2)"
  by (cases r1) (auto simp: append_char_def)

lemma widened_scanstring_aux:
  assumes "widened q n w" and "q"
  shows "same_result (scanstring n) (scanstring w)"
  using assms
proof (induction rule: widened.induct)
  case (nil q)
  show ?case by simp
next
  case (same q n w c)
  then show ?case by (simp add: same_result_append_char)
next
  case (quote q n w)
  then show ?case by simp
next
  case (wider c n w d)
  then show ?case by simp
qed

lemma widened_scanstring: "widened True n w \<Longrightarrow> same_result (scanstring n) (scanstring w)"
  using widened_scanstring_aux[of True n w] by simp

lemma widened_literal:
  assumes "widened False n w" and "\<forall>c\<in>set lit. \<not> is_ws c \<and> c \<noteq> dquote" and "length lit = k"
  shows "startswith n lit = startswith w lit"
    and "startswith n lit \<Longrightarrow> widened False (drop k n) (drop k w)"
  using widened_startswith[OF assms(1,2)] assms(3) by simp_all

lemma widened_char:
  assumes "widened False n w" and "\<not> is_ws x" and "x \<noteq> dquote"
  shows "startswith n [x] = startswith w [x]"
    and "startswith n [x] \<Longrightarrow> widened False (tl n) (tl w)"
  using widened_literal[OF assms(1), of "[x]" 1] assms(2,3) by (simp_all add: drop_Suc)

lemma widened_dquote:
  assumes "widened False n w"
  shows "startswith n [dquote] = startswith w [dquote]"
    and "startswith n [dquote] \<Longrightarrow> widened True (tl n) (tl w)"
proof -
  have "startswith n [dquote] = startswith w [dquote]
      \<and> (startswith n [dquote] \<longrightarrow> widened True (tl n) (tl w))"
  proof (cases n)
    case Nil
    with assms have "w = []" by (auto dest: widened_Nil1)
    with Nil show ?thesis by simp
  next
    case (Cons c n')
    from assms[unfolded Cons] show ?thesis
    proof (cases rule: widened_outE)
      case (ws d w')
      then have "c \<noteq> dquote" "d \<noteq> dquote" by auto
      with ws Cons show ?thesis by simp
    next
      case (plain w')
      with Cons show ?thesis by simp
    next
      case (quote w')
      with Cons show ?thesis by simp
    qed
  qed
  then show "startswith n [dquote] = startswith w [dquote]"
    and "startswith n [dquote] \<Longrightarrow> widened True (tl n) (tl w)"
    by simp_all
qed

section \<open>Numbers in front of widened whitespace\<close>

lemma widened_digits_drop:
  assumes "widened False n w"
  shows "widened False (drop (length (takeWhile is_digit n)) n)
    (drop (length (takeWhile is_digit n)) w)"
proof -
  have "drop (length (takeWhile is_digit n)) n = dropWhile is_digit n"
    by (simp add: dropWhile_eq_drop)
  moreover have "drop (length (takeWhile is_digit n)) w = dropWhile is_digit w"
    by (simp add: widened_digits(1)[OF assms] dropWhile_eq_drop)
  ultimately show ?thesis
    using widened_digits(2)[OF assms] by simp
qed

lemma widened_number_sign:
  assumes "widened False n w"
  shows "number_sign n = number_sign w"
    and "widened False (drop (length (number_sign n)) n) (drop (length (number_sign n)) w)"
proof -
  have lit: "\<forall>c\<in>set ''-''. \<not> is_ws c \<and> c \<noteq> dquote"
    by (simp add: is_ws_def dquote_def)
  note l = widened_literal[OF assms lit, of 1]
  from l(1) show "number_sign n = number_sign w"
    by (simp add: number_sign_def)
  from l(2) assms show "widened False (drop (length (number_sign n)) n) (drop (length (number_sign n)) w)"
    by (simp add: number_sign_def)
qed

lemma widened_number_integer:
  assumes "widened False n w"
  shows "number_integer n = number_integer w"
    and "widened False (drop (length (number_integer n)) n) (drop (length (number_integer n)) w)"
proof -
  have lit: "\<forall>c\<in>set ''0''. \<not> is_ws c \<and> c \<noteq> dquote"
    by (simp add: is_ws_def dquote_def)
  note l = widened_literal[OF assms lit, of 1]
  note d = widened_digits[OF assms]
  from l(1) d(1) show "number_integer n = number_integer w"
    by (simp add: number_integer_def)
  show "widened False (drop (length (number_integer n)) n) (drop (length (number_integer n)) w)"
  proof (cases "startswith n ''0''")
    case True
    with l(2) show ?thesis by (simp add: number_integer_def)
  next
    case False
    with widened_digits_drop[OF assms] show ?thesis
      by (simp add: number_integer_def)
  qed
qed

lemma number_frac_alt:
  "number_frac s =
     (if startswith s ''.'' \<and> takeWhile is_digit (tl s) \<noteq> []
      then CHR ''.'' # takeWhile is_digit (tl s) else [])"
proof (cases s)
  case Nil
  then show ?thesis by (simp add: number_frac_def)
next
  case (Cons c cs)
  then show ?thesis by (cases cs) (auto simp: number_frac_def)
qed

lemma widened_number_frac:
  assumes "widened False n w"
  shows "number_frac n = number_frac w"
    and "widened False (drop (length (number_frac n)) n) (drop (length (number_frac n)) w)"
proof -
  have dot: "\<not> is_ws CHR ''.''" "CHR ''.'' \<noteq> dquote"
    by (simp_all add: is_ws_def dquote_def)
  note l = widened_char[OF assms dot]
  show "number_frac n = number_frac w"
  proof (cases "startswith n ''.''")
    case True
    from widened_digits(1)[OF l(2)[OF True]] l(1) show ?thesis
      by (simp add: number_frac_alt)
  next
    case False
    with l(1) show ?thesis by (simp add: number_frac_alt)
  qed
  show "widened False (drop (length (number_frac n)) n) (drop (length (number_frac n)) w)"
  proof (cases "startswith n ''.'' \<and> takeWhile is_digit (tl n) \<noteq> []")
    case True
    then have "widened False (drop (length (takeWhile is_digit (tl n))) (tl n))
        (drop (length (takeWhile is_digit (tl n))) (tl w))"
      using widened_digits_drop[OF l(2)] by simp
    with True show ?thesis
      by (simp add: number_frac_alt drop_Suc)
  next
    case False
    then have "number_frac n = []" by (auto simp: number_frac_alt)
    with assms show ?thesis by simp
  qed
qed

text \<open>The sign of an exponent.\<close>

lemma widened_exp_sign:
  assumes "widened False n w"
  defines "esign \<equiv> \<lambda>cs. if startswith cs ''-'' \<or> startswith cs ''+'' then take 1 cs else []"
  shows "esign n = esign w"
    and "widened False (drop (length (esign n)) n) (drop (length (esign n)) w)"
proof -
  have minus: "\<not> is_ws CHR ''-''" "CHR ''-'' \<noteq> dquote"
    and plus: "\<not> is_ws CHR ''+''" "CHR ''+'' \<noteq> dquote"
    by (simp_all add: is_ws_def dquote_def)
  note m = widened_char[OF assms(1) minus]
  note p = widened_char[OF assms(1) plus]
  from m(1) p(1) show "esign n = esign w"
    unfolding esign_def startswith_def by auto
  show "widened False (drop (length (esign n)) n) (drop (length (esign n)) w)"
  proof (cases "startswith n ''-'' \<or> startswith n ''+''")
    case True
    then have "widened False (tl n) (tl w)" using m(2) p(2) by blast
    moreover from True have "n \<noteq> []" by auto
    then have "length (take 1 n) = 1" by (cases n) simp_all
    with True have "length (esign n) = 1" by (simp add: esign_def)
    ultimately show ?thesis by (simp add: drop_Suc)
  next
    case False
    with assms(1) show ?thesis by (simp add: esign_def)
  qed
qed

lemma number_exp_Cons:
  "number_exp (c # cs) =
     (if c = CHR ''e'' \<or> c = CHR ''E'' then
        (let sgn = (if startswith cs ''-'' \<or> startswith cs ''+'' then take 1 cs else []);
             digits = takeWhile is_digit (drop (length sgn) cs)
         in if digits = [] then [] else c # sgn @ digits)
      else [])"
  by (simp add: number_exp_def)

lemma widened_number_exp_aux:
  assumes "widened False n w"
  shows "number_exp n = number_exp w
    \<and> widened False (drop (length (number_exp n)) n) (drop (length (number_exp n)) w)"
proof (cases n)
  case Nil
  with assms have "w = []" by (auto dest: widened_Nil1)
  with Nil show ?thesis by (simp add: number_exp_def widened.nil)
next
  case (Cons c n')
  from assms[unfolded Cons] show ?thesis
  proof (cases rule: widened_outE)
    case (ws d w')
    then have "c \<noteq> CHR ''e''" "c \<noteq> CHR ''E''" "d \<noteq> CHR ''e''" "d \<noteq> CHR ''E''"
      by (auto simp: is_ws_def)
    with ws Cons assms show ?thesis by (simp add: number_exp_Cons)
  next
    case (quote w')
    then have "c \<noteq> CHR ''e''" "c \<noteq> CHR ''E''"
      by (auto simp: dquote_def)
    with quote Cons assms show ?thesis by (simp add: number_exp_Cons)
  next
    case (plain w')
    show ?thesis
    proof (cases "c = CHR ''e'' \<or> c = CHR ''E''")
      case False
      with plain Cons assms show ?thesis by (simp add: number_exp_Cons)
    next
      case True
      define sg where "sg = (if startswith n' ''-'' \<or> startswith n' ''+'' then take 1 n' else [])"
      define sgw where "sgw = (if startswith w' ''-'' \<or> startswith w' ''+'' then take 1 w' else [])"
      from widened_exp_sign[OF plain(4)]
      have sgeq: "sg = sgw"
        and r: "widened False (drop (length sg) n') (drop (length sg) w')"
        by (simp_all add: sg_def sgw_def)
      define digits where "digits = takeWhile is_digit (drop (length sg) n')"
      from widened_digits[OF r]
      have dg: "takeWhile is_digit (drop (length sg) w') = digits"
        and r2: "widened False (dropWhile is_digit (drop (length sg) n'))
          (dropWhile is_digit (drop (length sg) w'))"
        by (simp_all add: digits_def)
      have en: "number_exp n = (if digits = [] then [] else c # sg @ digits)"
        using True Cons by (simp add: number_exp_Cons Let_def sg_def digits_def)
      have ew: "number_exp w = (if digits = [] then [] else c # sg @ digits)"
        using True plain(3) dg[unfolded sgeq] sgeq
        by (simp add: number_exp_Cons Let_def sgw_def)
      show ?thesis
      proof (cases "digits = []")
        case True
        with en ew assms show ?thesis by simp
      next
        case False
        have "drop (length (c # sg @ digits)) n = dropWhile is_digit (drop (length sg) n')"
          by (simp add: Cons dropWhile_eq_drop digits_def add.commute)
        moreover have "drop (length (c # sg @ digits)) w = dropWhile is_digit (drop (length sg) w')"
          using dg by (simp add: plain(3) dropWhile_eq_drop add.commute)
        ultimately show ?thesis using False en ew r2 by simp
      qed
    qed
  qed
qed

lemma widened_number_exp:
  assumes "widened False n w"
  shows "number_exp n = number_exp w"
    and "widened False (drop (length (number_exp n)) n) (drop (length (number_exp n)) w)"
proof -
  note aux = widened_number_exp_aux[OF assms]
  from aux show "number_exp n = number_exp w" by (rule conjunct1)
  from aux show "widened False (drop (length (number_exp n)) n) (drop (length (number_exp n)) w)"
    by (rule conjunct2)
qed

lemma widened_match_number:
  assumes "widened False n w"
  shows "same_result (match_number n) (match_number w)"
proof -
  define sign where "sign = number_sign n"
  define n1 where "n1 = drop (length sign) n"
  define w1 where "w1 = drop (length sign) w"
  define integer where "integer = number_integer n1"
  define n2 where "n2 = drop (length integer) n1"
  define w2 where "w2 = drop (length integer) w1"
  define frac where "frac = number_frac n2"
  define n3 where "n3 = drop (length frac) n2"
  define w3 where "w3 = drop (length frac) w2"
  define exp where "exp = number_exp n3"
  define n4 where "n4 = drop (length exp) n3"
  define w4 where "w4 = drop (length exp) w3"
  from widened_number_sign[OF assms]
  have s: "number_sign w = sign" and r1: "widened False n1 w1"
    by (simp_all add: sign_def n1_def w1_def)
  from widened_number_integer[OF r1]
  have i: "number_integer w1 = integer" and r2: "widened False n2 w2"
    by (simp_all add: integer_def n2_def w2_def)
  from widened_number_frac[OF r2]
  have f: "number_frac w2 = frac" and r3: "widened False n3 w3"
    by (simp_all add: frac_def n3_def w3_def)
  from widened_number_exp[OF r3]
  have e: "number_exp w3 = exp" and r4: "widened False n4 w4"
    by (simp_all add: exp_def n4_def w4_def)
  let ?res = "\<lambda>rest. if integer = [] then Inl JSONDecodeError
      else if frac = [] \<and> exp = [] then
        (if max_str_digits < length integer then Inl ValueError
         else Inr (JInt (if sign = [] then int_of_digits integer else - int_of_digits integer), rest))
      else Inr (JFloat (sign @ integer @ frac @ exp), rest)"
  have mn: "match_number n = ?res n4"
    unfolding match_number_def Let_def
    by (simp only: sign_def[symmetric] n1_def[symmetric] integer_def[symmetric] n2_def[symmetric]
        frac_def[symmetric] n3_def[symmetric] exp_def[symmetric] n4_def[symmetric])
  have mw: "match_number w = ?res w4"
    unfolding match_number_def Let_def
    by (simp only: s w1_def[symmetric] i w2_def[symmetric] f w3_def[symmetric] e w4_def[symmetric])
  show ?thesis
    unfolding mn mw using r4 by simp
qed

lemma widened_scan_constant:
  assumes "widened False n w"
  shows "same_result (scan_constant n) (scan_constant w)"
proof -
  have lits:
    "\<forall>c\<in>set ''null''. \<not> is_ws c \<and> c \<noteq> dquote"
    "\<forall>c\<in>set ''true''. \<not> is_ws c \<and> c \<noteq> dquote"
    "\<forall>c\<in>set ''false''. \<not> is_ws c \<and> c \<noteq> dquote"
    "\<forall>c\<in>set ''NaN''. \<not> is_ws c \<and> c \<noteq> dquote"
    "\<forall>c\<in>set ''Infinity''. \<not> is_ws c \<and> c \<noteq> dquote"
    "\<forall>c\<in>set ''-Infinity''. \<not> is_ws c \<and> c \<noteq> dquote"
    by (simp_all add: is_ws_def dquote_def)
  have lens: "length ''null'' = 4" "length ''true'' = 4" "length ''false'' = 5"
    "length ''NaN'' = 3" "length ''Infinity'' = 8" "length ''-Infinity'' = 9"
    by simp_all
  note l1 = widened_literal[OF assms lits(1) lens(1)]
  note l2 = widened_literal[OF assms lits(2) lens(2)]
  note l3 = widened_literal[OF assms lits(3) lens(3)]
  note l4 = widened_literal[OF assms lits(4) lens(4)]
  note l5 = widened_literal[OF assms lits(5) lens(5)]
  note l6 = widened_literal[OF assms lits(6) lens(6)]
  note num = widened_match_number[OF assms]
  show ?thesis
  proof (cases "startswith n ''null''")
    case True
    with l1 show ?thesis by (simp add: scan_constant_def)
  next
    case n1: False
    show ?thesis
    proof (cases "startswith n ''true''")
      case True
      with n1 l1(1) l2 show ?thesis by (simp add: scan_constant_def)
    next
      case n2: False
      show ?thesis
      proof (cases "startswith n ''false''")
        case True
        with n1 n2 l1(1) l2(1) l3 show ?thesis by (simp add: scan_constant_def)
      next
        case n3: False
        show ?thesis
        proof (cases "startswith n ''NaN''")
          case True
          with n1 n2 n3 l1(1) l2(1) l3(1) l4 show ?thesis by (simp add: scan_constant_def)
        next
          case n4: False
          show ?thesis
          proof (cases "startswith n ''Infinity''")
            case True
            with n1 n2 n3 n4 l1(1) l2(1) l3(1) l4(1) l5 show ?thesis
              by (simp add: scan_constant_def)
          next
            case n5: False
            show ?thesis
            proof (cases "startswith n ''-Infinity''")
              case True
              with n1 n2 n3 n4 n5 l1(1) l2(1) l3(1) l4(1) l5(1) l6 show ?thesis
                by (simp add: scan_constant_def)
            next
              case n6: False
              have "scan_constant n = match_number n"
                using n1 n2 n3 n4 n5 n6 unfolding scan_constant_def by (simp only: if_False)
              moreover have "scan_constant w = match_number w"
                using n1 n2 n3 n4 n5 n6 l1(1) l2(1) l3(1) l4(1) l5(1) l6(1)
                unfolding scan_constant_def by (simp only: if_False)
              ultimately show ?thesis using num by simp
            qed
          qed
        qed
      qed
    qed
  qed
qed

section \<open>The scanner in front of widened whitespace\<close>

lemma widened_tl_skip_ws:
  assumes "widened False n w" and "\<not> is_ws x" and "x \<noteq> dquote"
  shows "startswith (skip_ws n) [x] = startswith (skip_ws w) [x]"
    and "startswith (skip_ws n) [x] \<Longrightarrow> widened False (tl (skip_ws n)) (tl (skip_ws w))"
    and "startswith (skip_ws n) [x] \<Longrightarrow>
      widened False (skip_ws (tl (skip_ws n))) (skip_ws (tl (skip_ws w)))"
proof -
  note s = widened_skip_ws[OF assms(1)]
  note c = widened_char[OF s assms(2,3)]
  from c(1) show "startswith (skip_ws n) [x] = startswith (skip_ws w) [x]" .
  from c(2) show "startswith (skip_ws n) [x] \<Longrightarrow> widened False (tl (skip_ws n)) (tl (skip_ws w))" .
  from c(2) show "startswith (skip_ws n) [x] \<Longrightarrow>
      widened False (skip_ws (tl (skip_ws n))) (skip_ws (tl (skip_ws w)))"
    by (rule widened_skip_ws)
qed

lemma structural_chars:
  "\<not> is_ws CHR ''}''" "CHR ''}'' \<noteq> dquote"
  "\<not> is_ws CHR '']''" "CHR '']'' \<noteq> dquote"
  "\<not> is_ws CHR '',''" "CHR '','' \<noteq> dquote"
  "\<not> is_ws CHR '':''" "CHR '':'' \<noteq> dquote"
  "\<not> is_ws CHR ''{''" "CHR ''{'' \<noteq> dquote"
  "\<not> is_ws CHR ''[''" "CHR ''['' \<noteq> dquote"
  by (simp_all add: is_ws_def dquote_def)

lemma scan_once_ws:
  assumes "is_ws c"
  shows "scan_once (Suc fuel) limit (c # cs) = scan_constant (c # cs)"
proof -
  from assms have "c \<noteq> dquote" "c \<noteq> CHR ''{''" "c \<noteq> CHR ''[''"
    using structural_chars by auto
  then show ?thesis by simp
qed

lemma scan_once_step_widened:
  assumes obj: "\<And>limit pairs n w. widened False n w \<Longrightarrow>
      same_result (parse_object fuel limit pairs n) (parse_object fuel limit pairs w)"
    and arr: "\<And>limit vals n w. widened False n w \<Longrightarrow>
      same_result (parse_array fuel limit vals n) (parse_array fuel limit vals w)"
    and rel: "widened False n w"
  shows "same_result (scan_once (Suc fuel) limit n) (scan_once (Suc fuel) limit w)"
proof (cases n)
  case Nil
  with rel have "w = []" by (auto dest: widened_Nil1)
  with Nil show ?thesis by simp
next
  case (Cons c n')
  from rel[unfolded Cons] show ?thesis
  proof (cases rule: widened_outE)
    case (ws d w')
    from widened_scan_constant[OF rel] ws Cons show ?thesis
      by (simp only: scan_once_ws)
  next
    case (quote w')
    from widened_scanstring[OF quote(3)] quote(1,2) Cons show ?thesis
      by (cases "scanstring n'") auto
  next
    case (plain w')
    note inner = widened_skip_ws[OF plain(4)]
    show ?thesis
    proof (cases "c = CHR ''{''")
      case True
      note close = widened_tl_skip_ws[OF plain(4) structural_chars(1,2)]
      show ?thesis
      proof (cases "limit = 0")
        case True
        with \<open>c = CHR ''{''\<close> plain Cons show ?thesis by simp
      next
        case lim: False
        show ?thesis
        proof (cases "startswith (skip_ws n') ''}''")
          case e: True
          with close(1,2) True lim plain Cons show ?thesis by simp
        next
          case False
          with close(1) obj[OF inner, of "limit - 1" "[]"] True lim plain Cons show ?thesis
            by simp
        qed
      qed
    next
      case nb: False
      show ?thesis
      proof (cases "c = CHR ''[''")
        case True
        note close = widened_tl_skip_ws[OF plain(4) structural_chars(3,4)]
        show ?thesis
        proof (cases "limit = 0")
          case True
          with \<open>c = CHR ''[''\<close> plain Cons show ?thesis by simp
        next
          case lim: False
          show ?thesis
          proof (cases "startswith (skip_ws n') '']''")
            case e: True
            with close(1,2) True lim plain Cons show ?thesis by simp
          next
            case False
            with close(1) arr[OF inner, of "limit - 1" "[]"] True lim plain Cons show ?thesis
              by simp
          qed
        qed
      next
        case False
        with nb plain Cons widened_scan_constant[OF rel] show ?thesis by simp
      qed
    qed
  qed
qed

lemma parse_object_step_widened:
  assumes scan: "\<And>limit n w. widened False n w \<Longrightarrow>
      same_result (scan_once fuel limit n) (scan_once fuel limit w)"
    and obj: "\<And>limit pairs n w. widened False n w \<Longrightarrow>
      same_result (parse_object fuel limit pairs n) (parse_object fuel limit pairs w)"
    and rel: "widened False n w"
  shows "same_result (parse_object (Suc fuel) limit pairs n) (parse_object (Suc fuel) limit pairs w)"
proof (cases "startswith n [dquote]")
  case False
  with widened_dquote(1)[OF rel] show ?thesis by simp
next
  case q: True
  with widened_dquote[OF rel] have qw: "startswith w [dquote]"
    and inside: "widened True (tl n) (tl w)"
    by simp_all
  note str = widened_scanstring[OF inside]
  show ?thesis
  proof (cases "scanstring (tl n)")
    case (Inl e)
    with str q qw show ?thesis by simp
  next
    case (Inr kr)
    obtain key rest where kr: "kr = (key, rest)" by (cases kr)
    from str Inr kr obtain rest_w where
      kw: "scanstring (tl w) = Inr (key, rest_w)" and r1: "widened False rest rest_w"
      by auto
    note colon = widened_tl_skip_ws[OF r1 structural_chars(7,8)]
    show ?thesis
    proof (cases "startswith (skip_ws rest) '':''")
      case False
      with colon(1) q qw Inr kr kw show ?thesis by simp
    next
      case c: True
      with colon(1) have cw: "startswith (skip_ws rest_w) '':''" by simp
      let ?n1 = "skip_ws (tl (skip_ws rest))"
      let ?w1 = "skip_ws (tl (skip_ws rest_w))"
      from colon(3)[OF c] have r2: "widened False ?n1 ?w1" .
      note val = scan[OF r2, of limit]
      show ?thesis
      proof (cases "scan_once fuel limit ?n1")
        case (Inl e)
        with val q qw Inr kr kw c cw show ?thesis by simp
      next
        case vn: (Inr vr)
        obtain v rest' where vr: "vr = (v, rest')" by (cases vr)
        from val vn vr obtain rest_w' where
          vw: "scan_once fuel limit ?w1 = Inr (v, rest_w')" and r3: "widened False rest' rest_w'"
          by auto
        note close = widened_tl_skip_ws[OF r3 structural_chars(1,2)]
        note comma = widened_tl_skip_ws[OF r3 structural_chars(5,6)]
        let ?pairs = "AList.update key v pairs"
        have nn: "parse_object (Suc fuel) limit pairs n =
            (if startswith (skip_ws rest') ''}'' then Inr (JDict ?pairs, tl (skip_ws rest'))
             else if startswith (skip_ws rest') '',''
               then parse_object fuel limit ?pairs (skip_ws (tl (skip_ws rest')))
             else Inl JSONDecodeError)"
          using q Inr kr c vn vr by (simp add: Let_def)
        have ww: "parse_object (Suc fuel) limit pairs w =
            (if startswith (skip_ws rest_w') ''}'' then Inr (JDict ?pairs, tl (skip_ws rest_w'))
             else if startswith (skip_ws rest_w') '',''
               then parse_object fuel limit ?pairs (skip_ws (tl (skip_ws rest_w')))
             else Inl JSONDecodeError)"
          using qw kw cw vw by (simp add: Let_def)
        show ?thesis
        proof (cases "startswith (skip_ws rest') ''}''")
          case True
          with close(1,2) show ?thesis unfolding nn ww by simp
        next
          case nc: False
          show ?thesis
          proof (cases "startswith (skip_ws rest') '',''")
            case True
            from obj[OF comma(3)[OF True], of limit ?pairs] nc True close(1) comma(1)
            show ?thesis unfolding nn ww by simp
          next
            case False
            with nc close(1) comma(1) show ?thesis unfolding nn ww by simp
          qed
        qed
      qed
    qed
  qed
qed

lemma parse_array_step_widened:
  assumes scan: "\<And>limit n w. widened False n w \<Longrightarrow>
      same_result (scan_once fuel limit n) (scan_once fuel limit w)"
    and arr: "\<And>limit vals n w. widened False n w \<Longrightarrow>
      same_result (parse_array fuel limit vals n) (parse_array fuel limit vals w)"
    and rel: "widened False n w"
  shows "same_result (parse_array (Suc fuel) limit vals n) (parse_array (Suc fuel) limit vals w)"
proof -
  note val = scan[OF rel, of limit]
  show ?thesis
  proof (cases "scan_once fuel limit n")
    case (Inl e)
    with val show ?thesis by simp
  next
    case vn: (Inr vr)
    obtain v rest' where vr: "vr = (v, rest')" by (cases vr)
    from val vn vr obtain rest_w' where
      vw: "scan_once fuel limit w = Inr (v, rest_w')" and r3: "widened False rest' rest_w'"
      by auto
    note close = widened_tl_skip_ws[OF r3 structural_chars(3,4)]
    note comma = widened_tl_skip_ws[OF r3 structural_chars(5,6)]
    have nn: "parse_array (Suc fuel) limit vals n =
        (if startswith (skip_ws rest') '']'' then Inr (JList (vals @ [v]), tl (skip_ws rest'))
         else if startswith (skip_ws rest') '',''
           then parse_array fuel limit (vals @ [v]) (skip_ws (tl (skip_ws rest')))
         else Inl JSONDecodeError)"
      using vn vr by (simp add: Let_def)
    have ww: "parse_array (Suc fuel) limit vals w =
        (if startswith (skip_ws rest_w') '']'' then Inr (JList (vals @ [v]), tl (skip_ws rest_w'))
         else if startswith (skip_ws rest_w') '',''
           then parse_array fuel limit (vals @ [v]) (skip_ws (tl (skip_ws rest_w')))
         else Inl JSONDecodeError)"
      using vw by (simp add: Let_def)
    show ?thesis
    proof (cases "startswith (skip_ws rest') '']''")
      case True
      with close(1,2) show ?thesis unfolding nn ww by simp
    next
      case nc: False
      show ?thesis
      proof (cases "startswith (skip_ws rest') '',''")
        case True
        from arr[OF comma(3)[OF True], of limit "vals @ [v]"] nc True close(1) comma(1)
        show ?thesis unfolding nn ww by simp
      next
        case False
        with nc close(1) comma(1) show ?thesis unfolding nn ww by simp
      qed
    qed
  qed
qed

lemma parser_widened:
  "(\<forall>limit n w. widened False n w \<longrightarrow>
      same_result (scan_once fuel limit n) (scan_once fuel limit w))
   \<and> (\<forall>limit pairs n w. widened False n w \<longrightarrow>
      same_result (parse_object fuel limit pairs n) (parse_object fuel limit pairs w))
   \<and> (\<forall>limit vals n w. widened False n w \<longrightarrow>
      same_result (parse_array fuel limit vals n) (parse_array fuel limit vals w))"
proof (induction fuel)
  case 0
  show ?case by simp
next
  case (Suc fuel)
  from Suc have scan: "\<And>limit n w. widened False n w \<Longrightarrow>
      same_result (scan_once fuel limit n) (scan_once fuel limit w)"
    and obj: "\<And>limit pairs n w. widened False n w \<Longrightarrow>
      same_result (parse_object fuel limit pairs n) (parse_object fuel limit pairs w)"
    and arr: "\<And>limit vals n w. widened False n w \<Longrightarrow>
      same_result (parse_array fuel limit vals n) (parse_array fuel limit vals w)"
    by blast+
  show ?case
  proof (intro conjI allI impI)
    fix limit n w
    assume "widened False n w"
    with obj arr
    show "same_result (scan_once (Suc fuel) limit n) (scan_once (Suc fuel) limit w)"
      by (rule scan_once_step_widened)
  next
    fix limit pairs n w
    assume "widened False n w"
    with scan obj
    show "same_result (parse_object (Suc fuel) limit pairs n) (parse_object (Suc fuel) limit pairs w)"
      by (rule parse_object_step_widened)
  next
    fix limit vals n w
    assume "widened False n w"
    with scan arr
    show "same_result (parse_array (Suc fuel) limit vals n) (parse_array (Suc fuel) limit vals w)"
      by (rule parse_array_step_widened)
  qed
qed

lemma scan_once_widened:
  "widened False n w \<Longrightarrow> same_result (scan_once fuel limit n) (scan_once fuel limit w)"
  using parser_widened by blast

text \<open>Widened whitespace outside of the string literals does not change what is decoded.\<close>

lemma json_loads_widened:
  assumes "widened False n w"
  shows "json_loads limit w = json_loads limit n"
proof -
  define fuel where "fuel = 2 * length n + 2 * length w + 2"
  have fn: "2 * length n + 2 \<le> fuel" and fw: "2 * length w + 2 \<le> fuel"
    by (simp_all add: fuel_def)
  note res = scan_once_widened[OF widened_skip_ws[OF assms], of fuel limit]
  show ?thesis
  proof (cases "scan_once fuel limit (skip_ws n)")
    case (Inl e)
    with res show ?thesis
      by (simp add: json_loads_fuel[OF fn] json_loads_fuel[OF fw])
  next
    case (Inr vr)
    obtain v rest where vr: "vr = (v, rest)" by (cases vr)
    from res Inr vr obtain rest_w where
      w: "scan_once fuel limit (skip_ws w) = Inr (v, rest_w)" and r: "widened False rest rest_w"
      by auto
    from widened_skip_ws_Nil[OF r] Inr vr w show ?thesis
      by (simp add: json_loads_fuel[OF fn] json_loads_fuel[OF fw])
  qed
qed

section \<open>The normalized text and the original\<close>

lemma separators_close_vikr: "separators_close q (''vikr'' @ r) = separators_close (\<not> q) r"
  by (simp add: separators_close.simps(2))

lemma separators_close_sandep: "separators_close q (''sandep'' @ r) = separators_close q r"
  by (simp add: separators_close.simps(2))

lemma separators_close_arun: "separators_close q (''arun'' @ r) = (q \<and> separators_close q r)"
  by (simp add: separators_close.simps(2))

lemma separators_close_bindhu: "separators_close q (''bindhu'' @ r) = separators_close q r"
  by (simp add: separators_close.simps(2))

lemma separators_close_gauth: "separators_close q (''gauth'' @ r) = separators_close (\<not> q) r"
  by (simp add: separators_close.simps(2))

lemma separators_close_plain:
  assumes "\<not> startswith (c # cs) ''vikr''" and "\<not> startswith (c # cs) ''sandep''"
    and "\<not> startswith (c # cs) ''arun''" and "\<not> startswith (c # cs) ''bindhu''"
    and "\<not> startswith (c # cs) ''gauth''"
  shows "separators_close q (c # cs) = separators_close q cs"
  using assms by (simp only: separators_close.simps(2) if_False)

lemma widened_vikr:
  assumes "widened (\<not> q) n w"
  shows \<open>widened q (''{"'' @ n) (''{"'' @ w)\<close>
proof -
  from assms have "widened q (dquote # n) (dquote # w)"
    by (rule widened.quote)
  then have "widened q (CHR ''{'' # dquote # n) (CHR ''{'' # dquote # w)"
    by (rule widened.same) (simp_all add: dquote_def backslash_def)
  then show ?thesis by (simp add: dquote_def)
qed

lemma widened_gauth:
  assumes "widened (\<not> q) n w"
  shows \<open>widened q (''"}'' @ n) (''"}'' @ w)\<close>
proof -
  from assms have "widened (\<not> q) (CHR ''}'' # n) (CHR ''}'' # w)"
    by (rule widened.same) (simp_all add: dquote_def backslash_def)
  then have "widened q (dquote # CHR ''}'' # n) (dquote # CHR ''}'' # w)"
    by (rule widened.quote)
  then show ?thesis by (simp add: dquote_def)
qed

lemma widened_between:
  assumes "widened q n w" and "c \<noteq> dquote" and "c \<noteq> backslash"
  shows "widened q (dquote # c # dquote # n) (dquote # c # dquote # w)"
proof -
  from assms(1) have "widened (\<not> \<not> q) n w" by simp
  then have "widened (\<not> q) (dquote # n) (dquote # w)"
    by (rule widened.quote)
  then have "widened (\<not> q) (c # dquote # n) (c # dquote # w)"
    using assms(2) by (rule widened.same) (simp add: assms(3))
  then show ?thesis
    by (rule widened.quote)
qed

lemma widened_sandep:
  assumes "widened q n w"
  shows \<open>widened q (''","'' @ n) (''","'' @ w)\<close>
  using widened_between[OF assms, of "CHR '',''"] by (simp add: dquote_def backslash_def)

lemma widened_bindhu:
  assumes "widened q n w"
  shows \<open>widened q (''":"'' @ n) (''":"'' @ w)\<close>
  using widened_between[OF assms, of "CHR '':''"] by (simp add: dquote_def backslash_def)

lemma widened_arun:
  assumes "widened True n w"
  shows \<open>widened True (''" : "'' @ n) (''"  :  "'' @ w)\<close>
proof -
  have sp: "is_ws CHR '' ''" by (simp add: is_ws_def)
  have nq: "CHR '' '' \<noteq> dquote" "CHR '':'' \<noteq> dquote" by (simp_all add: dquote_def)
  from assms have "widened (\<not> False) n w" by simp
  then have "widened False (dquote # n) (dquote # w)"
    by (rule widened.quote)
  then have "widened False (CHR '' '' # dquote # n) (CHR '' '' # dquote # w)"
    using nq(1) by (rule widened.same) simp
  then have "widened False (CHR '' '' # dquote # n) (CHR '' '' # CHR '' '' # dquote # w)"
    using sp sp by (rule widened.wider)
  then have "widened False (CHR '':'' # CHR '' '' # dquote # n)
      (CHR '':'' # CHR '' '' # CHR '' '' # dquote # w)"
    using nq(2) by (rule widened.same) simp
  then have "widened False (CHR '' '' # CHR '':'' # CHR '' '' # dquote # n)
      (CHR '' '' # CHR '':'' # CHR '' '' # CHR '' '' # dquote # w)"
    using nq(1) by (rule widened.same) simp
  then have "widened False (CHR '' '' # CHR '':'' # CHR '' '' # dquote # n)
      (CHR '' '' # CHR '' '' # CHR '':'' # CHR '' '' # CHR '' '' # dquote # w)"
    using sp sp by (rule widened.wider)
  then have "widened (\<not> True) (CHR '' '' # CHR '':'' # CHR '' '' # dquote # n)
      (CHR '' '' # CHR '' '' # CHR '':'' # CHR '' '' # CHR '' '' # dquote # w)"
    by simp
  then have "widened True (dquote # CHR '' '' # CHR '':'' # CHR '' '' # dquote # n)
      (dquote # CHR '' '' # CHR '' '' # CHR '':'' # CHR '' '' # CHR '' '' # dquote # w)"
    by (rule widened.quote)
  then show ?thesis by (simp add: dquote_def)
qed

lemma expand_widened:
  assumes "separators_close q s" and "dquote \<notin> set s" and "backslash \<notin> set s"
  shows \<open>widened q (expand ''" : "'' s) (expand ''"  :  "'' s)\<close>
  using assms
proof (induction s arbitrary: q rule: length_induct)
  case (1 s)
  show ?case
  proof (cases rule: token_cases[of s])
    case nil
    then show ?thesis by (simp add: widened.nil)
  next
    case (vikr r)
    from "1.prems"(1) have "separators_close (\<not> q) r"
      unfolding vikr separators_close_vikr .
    moreover from "1.prems"(2,3) have "dquote \<notin> set r" "backslash \<notin> set r"
      unfolding vikr by simp_all
    ultimately have \<open>widened (\<not> q) (expand ''" : "'' r) (expand ''"  :  "'' r)\<close>
      using 1 vikr by simp
    then show ?thesis unfolding vikr by (simp only: expand_vikr widened_vikr)
  next
    case (sandep r)
    from "1.prems"(1) have "separators_close q r"
      unfolding sandep separators_close_sandep .
    moreover from "1.prems"(2,3) have "dquote \<notin> set r" "backslash \<notin> set r"
      unfolding sandep by simp_all
    ultimately have \<open>widened q (expand ''" : "'' r) (expand ''"  :  "'' r)\<close>
      using 1 sandep by simp
    then show ?thesis unfolding sandep by (simp only: expand_sandep widened_sandep)
  next
    case (arun r)
    from "1.prems"(1) have both: "q \<and> separators_close q r"
      unfolding arun separators_close_arun .
    then have q: "q = True" by simp
    from both have "separators_close q r" by (rule conjunct2)
    moreover from "1.prems"(2,3) have "dquote \<notin> set r" "backslash \<notin> set r"
      unfolding arun by simp_all
    ultimately have \<open>widened q (expand ''" : "'' r) (expand ''"  :  "'' r)\<close>
      using 1 arun by simp
    then have \<open>widened True (expand ''" : "'' r) (expand ''"  :  "'' r)\<close>
      unfolding q .
    then have \<open>widened True (''" : "'' @ expand ''" : "'' r) (''"  :  "'' @ expand ''"  :  "'' r)\<close>
      by (rule widened_arun)
    then show ?thesis unfolding arun q by (simp only: expand_arun)
  next
    case (bindhu r)
    from "1.prems"(1) have "separators_close q r"
      unfolding bindhu separators_close_bindhu .
    moreover from "1.prems"(2,3) have "dquote \<notin> set r" "backslash \<notin> set r"
      unfolding bindhu by simp_all
    ultimately have \<open>widened q (expand ''" : "'' r) (expand ''"  :  "'' r)\<close>
      using 1 bindhu by simp
    then show ?thesis unfolding bindhu by (simp only: expand_bindhu widened_bindhu)
  next
    case (gauth r)
    from "1.prems"(1) have "separators_close (\<not> q) r"
      unfolding gauth separators_close_gauth .
    moreover from "1.prems"(2,3) have "dquote \<notin> set r" "backslash \<notin> set r"
      unfolding gauth by simp_all
    ultimately have \<open>widened (\<not> q) (expand ''" : "'' r) (expand ''"  :  "'' r)\<close>
      using 1 gauth by simp
    then show ?thesis unfolding gauth by (simp only: expand_gauth widened_gauth)
  next
    case (plain c cs)
    from "1.prems"(1) have "separators_close q cs"
      unfolding plain(1) separators_close_plain[OF plain(2-6)] .
    moreover from "1.prems"(2,3) have c: "c \<noteq> dquote" "c \<noteq> backslash"
      and "dquote \<notin> set cs" "backslash \<notin> set cs"
      unfolding plain(1) by auto
    ultimately have \<open>widened q (expand ''" : "'' cs) (expand ''"  :  "'' cs)\<close>
      using 1 plain(1) by simp
    then have \<open>widened q (c # expand ''" : "'' cs) (c # expand ''"  :  "'' cs)\<close>
      using c(1) by (rule widened.same) (simp add: c(2))
    then show ?thesis unfolding plain(1) by (simp only: expand_plain[OF plain(2-6)])
  qed
qed

text \<open>
  A text that meets the conditions of the first step and the text the normalizer makes
  of it: the second is the first with wider key/value separators.
\<close>

lemma remove_double_quotes_widened:
  assumes "backslash \<notin> set j"
    and "\<not> is_in ''vikr'' j" and "\<not> is_in ''sandep'' j" and "\<not> is_in ''arun'' j"
    and "\<not> is_in ''bindhu'' j" and "\<not> is_in ''gauth'' j"
    and "dquote \<notin> set (to_placeholders j)"
    and "separators_close False (to_placeholders j)"
  shows "widened False j (remove_double_quotes j)"
proof -
  have \<open>remove_double_quotes j = restore_placeholders ''"  :  "'' (to_placeholders j)\<close>
    using assms(1,7) by (rule remove_double_quotes_clean)
  also have \<open>\<dots> = expand ''"  :  "'' (to_placeholders j)\<close>
    by (rule restore_is_expand, rule refl) simp_all
  finally have wide: \<open>remove_double_quotes j = expand ''"  :  "'' (to_placeholders j)\<close> .
  have narrow: \<open>expand ''" : "'' (to_placeholders j) = j\<close>
    by (rule expand_to_placeholders[OF assms(2-6)])
  have "backslash \<notin> set (to_placeholders j)"
    using assms(1) by (rule backslash_to_placeholders)
  with assms(8,7)
  have \<open>widened False (expand ''" : "'' (to_placeholders j)) (expand ''"  :  "'' (to_placeholders j))\<close>
    by (rule expand_widened)
  then show ?thesis by (simp only: wide narrow)
qed

text \<open>
  C6 (amended): let \<open>j\<close> hold no backslash and none of the five placeholder words, let
  the five sequences account for every double quote of \<open>j\<close> (none is left after the
  first step), and let every separator \<^verbatim>\<open>" : "\<close> matched in the first step begin with
  the double quote that closes a string literal. Then the normalized text is \<open>j\<close> with
  two spaces for one on each side of the colon at those separators, and
  \<^verbatim>\<open>json.loads\<close> gives for it what it gives for \<open>j\<close>, the same value or the same
  exception, under every recursion limit.
\<close>

theorem normalize_keeps_json_content:
  assumes "backslash \<notin> set j"
    and "\<not> is_in ''vikr'' j" and "\<not> is_in ''sandep'' j" and "\<not> is_in ''arun'' j"
    and "\<not> is_in ''bindhu'' j" and "\<not> is_in ''gauth'' j"
    and "dquote \<notin> set (to_placeholders j)"
    and "separators_close False (to_placeholders j)"
  shows \<open>json_loads limit (remove_double_quotes j) = json_loads limit j
    \<and> remove_double_quotes j = restore_placeholders ''"  :  "'' (to_placeholders j)
    \<and> restore_placeholders ''" : "'' (to_placeholders j) = j\<close>
proof (intro conjI)
  have "widened False j (remove_double_quotes j)"
    using assms by (rule remove_double_quotes_widened)
  then show "json_loads limit (remove_double_quotes j) = json_loads limit j"
    by (rule json_loads_widened)
  show \<open>remove_double_quotes j = restore_placeholders ''"  :  "'' (to_placeholders j)\<close>
    using assms(1,7) by (rule remove_double_quotes_clean)
  have \<open>restore_placeholders ''" : "'' (to_placeholders j) = expand ''" : "'' (to_placeholders j)\<close>
    by (rule restore_is_expand, rule refl) simp_all
  then show \<open>restore_placeholders ''" : "'' (to_placeholders j) = j\<close>
    by (simp only: expand_to_placeholders[OF assms(2-6)])
qed

theorem normalize_keeps_json_content_witness:
  \<open>json_loads 1000 (remove_double_quotes ''{"header":"SYS_ERROR","cid" : "0"}'')
      = json_loads 1000 ''{"header":"SYS_ERROR","cid" : "0"}''
   \<and> remove_double_quotes ''{"header":"SYS_ERROR","cid" : "0"}''
      = ''{"header":"SYS_ERROR","cid"  :  "0"}''
   \<and> json_loads 1000 ''{"header":"SYS_ERROR","cid" : "0"}''
      = Inr (JDict [(ustr ''header'', JStr (ustr ''SYS_ERROR'')), (ustr ''cid'', JStr (ustr ''0''))])\<close>
proof -
  let ?j = \<open>''{"header":"SYS_ERROR","cid" : "0"}''\<close>
  have a: "backslash \<notin> set ?j" by code_simp
  have b: "\<not> is_in ''vikr'' ?j" "\<not> is_in ''sandep'' ?j" "\<not> is_in ''arun'' ?j"
    "\<not> is_in ''bindhu'' ?j" "\<not> is_in ''gauth'' ?j"
    by code_simp+
  have c: "dquote \<notin> set (to_placeholders ?j)" by code_simp
  have d: "separators_close False (to_placeholders ?j)" by code_simp
  note r = normalize_keeps_json_content[OF a b c d, where limit = 1000]
  have 1: \<open>remove_double_quotes ?j = ''{"header":"SYS_ERROR","cid"  :  "0"}''\<close>
    by code_simp
  have 2: \<open>json_loads 1000 ?j
      = Inr (JDict [(ustr ''header'', JStr (ustr ''SYS_ERROR'')), (ustr ''cid'', JStr (ustr ''0''))])\<close>
    by code_simp
  from r[THEN conjunct1] 1 2 show ?thesis by (intro conjI)
qed

text \<open>
  The original claim fails on valid JSON with a value that is no string: the double
  quote in front of the colon is left over after the first step and is stripped.
\<close>

theorem normalize_breaks_unquoted_value:
  \<open>json_loads 1000 ''{"cid":0}'' = Inr (JDict [(ustr ''cid'', JInt 0)])
   \<and> backslash \<notin> set ''{"cid":0}''
   \<and> \<not> is_in ''vikr'' ''{"cid":0}'' \<and> \<not> is_in ''sandep'' ''{"cid":0}''
   \<and> \<not> is_in ''arun'' ''{"cid":0}'' \<and> \<not> is_in ''bindhu'' ''{"cid":0}''
   \<and> \<not> is_in ''gauth'' ''{"cid":0}''
   \<and> remove_double_quotes ''{"cid":0}'' = ''{"cid:0}''
   \<and> json_loads 1000 ''{"cid:0}'' = Inl JSONDecodeError\<close>
  by (intro conjI; code_simp)

text \<open>
  The condition on the separators is needed as well: a string literal that holds the
  separator changes its content.
\<close>

lemma normalize_changes_string_content:
  \<open>dquote \<notin> set (to_placeholders ''[" : "]'')
   \<and> \<not> separators_close False (to_placeholders ''[" : "]'')
   \<and> json_loads 1000 ''[" : "]'' = Inr (JList [JStr (ustr '' : '')])
   \<and> json_loads 1000 (remove_double_quotes ''[" : "]'') = Inr (JList [JStr (ustr ''  :  '')])\<close>
  by (intro conjI; code_simp)

section \<open>The recursion limit of the scanner\<close>

lemma scan_constant_not_recursion: "scan_constant s \<noteq> Inl RecursionError"
  by (simp add: scan_constant_def match_number_def Let_def)

lemma scanstring_not_recursion: "scanstring s \<noteq> Inl RecursionError"
  using scanstring_error[of s RecursionError] by auto

lemma scan_once_step_limit:
  assumes obj: "\<And>limit pairs s'. length s' < length s \<Longrightarrow> length s' \<le> limit \<Longrightarrow>
      parse_object n limit pairs s' \<noteq> Inl RecursionError"
    and arr: "\<And>limit vals s'. length s' < length s \<Longrightarrow> length s' \<le> limit \<Longrightarrow>
      parse_array n limit vals s' \<noteq> Inl RecursionError"
    and lim: "length s \<le> limit"
  shows "scan_once (Suc n) limit s \<noteq> Inl RecursionError"
proof (cases s)
  case Nil
  then show ?thesis by simp
next
  case (Cons c cs)
  have short: "length (skip_ws cs) < length s"
    using length_skip_ws[of cs] Cons by simp
  with lim have "length (skip_ws cs) \<le> limit - 1" and "limit \<noteq> 0" by simp_all
  with short have "parse_object n (limit - 1) [] (skip_ws cs) \<noteq> Inl RecursionError"
    and "parse_array n (limit - 1) [] (skip_ws cs) \<noteq> Inl RecursionError"
    by (simp_all add: obj arr)
  with \<open>limit \<noteq> 0\<close> Cons scanstring_not_recursion[of cs] scan_constant_not_recursion[of s]
  show ?thesis by (auto split: sum.splits)
qed

lemma parse_object_step_limit:
  assumes scan: "\<And>s'. length s' < length s \<Longrightarrow> scan_once n limit s' \<noteq> Inl RecursionError"
    and obj: "\<And>pairs s'. length s' < length s \<Longrightarrow>
      parse_object n limit pairs s' \<noteq> Inl RecursionError"
  shows "parse_object (Suc n) limit pairs s \<noteq> Inl RecursionError"
proof (cases "startswith s [dquote]")
  case False
  then show ?thesis by simp
next
  case q: True
  then have s: "s \<noteq> []" by (auto simp: startswith_def)
  show ?thesis
  proof (cases "scanstring (tl s)")
    case (Inl e)
    with q scanstring_not_recursion[of "tl s"] show ?thesis by simp
  next
    case (Inr kr)
    obtain key rest where kr: "kr = (key, rest)" by (cases kr)
    from scanstring_shorter[OF Inr[unfolded kr]] s have l1: "length rest < length s"
      by (cases s) auto
    let ?s1 = "skip_ws (tl (skip_ws rest))"
    have l2: "length ?s1 \<le> length rest"
      using length_skip_ws[of "tl (skip_ws rest)"] length_tl_skip_ws[of rest] by simp
    with l1 have "length ?s1 < length s" by simp
    then have ne1: "scan_once n limit ?s1 \<noteq> Inl RecursionError" by (rule scan)
    show ?thesis
    proof (cases "scan_once n limit ?s1")
      case (Inl e)
      with q Inr kr ne1 show ?thesis by simp
    next
      case val: (Inr vr)
      obtain val rest' where vr: "vr = (val, rest')" by (cases vr)
      from scan_once_shorter[OF val[unfolded vr]] have l3: "length rest' < length ?s1" .
      let ?s2 = "skip_ws (tl (skip_ws rest'))"
      have "length ?s2 \<le> length rest'"
        using length_skip_ws[of "tl (skip_ws rest')"] length_tl_skip_ws[of rest'] by simp
      with l1 l2 l3 have "length ?s2 < length s" by simp
      then have "parse_object n limit (AList.update key val pairs) ?s2 \<noteq> Inl RecursionError"
        by (rule obj)
      with q Inr kr val vr show ?thesis by (simp add: Let_def)
    qed
  qed
qed

lemma parse_array_step_limit:
  assumes scan: "scan_once n limit s \<noteq> Inl RecursionError"
    and arr: "\<And>vals s'. length s' < length s \<Longrightarrow>
      parse_array n limit vals s' \<noteq> Inl RecursionError"
  shows "parse_array (Suc n) limit vals s \<noteq> Inl RecursionError"
proof (cases "scan_once n limit s")
  case (Inl e)
  with scan show ?thesis by simp
next
  case val: (Inr vr)
  obtain val rest' where vr: "vr = (val, rest')" by (cases vr)
  from scan_once_shorter[OF val[unfolded vr]] have l3: "length rest' < length s" .
  let ?s2 = "skip_ws (tl (skip_ws rest'))"
  have "length ?s2 \<le> length rest'"
    using length_skip_ws[of "tl (skip_ws rest')"] length_tl_skip_ws[of rest'] by simp
  with l3 have "length ?s2 < length s" by simp
  then have "parse_array n limit (vals @ [val]) ?s2 \<noteq> Inl RecursionError"
    by (rule arr)
  with val vr show ?thesis by (simp add: Let_def)
qed

lemma parser_limit:
  "(\<forall>limit s. 2 * length s < n \<and> length s \<le> limit \<longrightarrow>
      scan_once n limit s \<noteq> Inl RecursionError)
   \<and> (\<forall>limit pairs s. 2 * length s + 1 < n \<and> length s \<le> limit \<longrightarrow>
      parse_object n limit pairs s \<noteq> Inl RecursionError)
   \<and> (\<forall>limit vals s. 2 * length s + 1 < n \<and> length s \<le> limit \<longrightarrow>
      parse_array n limit vals s \<noteq> Inl RecursionError)"
proof (induction n)
  case 0
  show ?case by simp
next
  case (Suc n)
  from Suc have scan: "\<And>limit s. 2 * length s < n \<Longrightarrow> length s \<le> limit \<Longrightarrow>
      scan_once n limit s \<noteq> Inl RecursionError"
    and obj: "\<And>limit pairs s. 2 * length s + 1 < n \<Longrightarrow> length s \<le> limit \<Longrightarrow>
      parse_object n limit pairs s \<noteq> Inl RecursionError"
    and arr: "\<And>limit vals s. 2 * length s + 1 < n \<Longrightarrow> length s \<le> limit \<Longrightarrow>
      parse_array n limit vals s \<noteq> Inl RecursionError"
    by blast+
  show ?case
  proof (intro conjI allI impI)
    fix limit and s :: string
    assume b: "2 * length s < Suc n \<and> length s \<le> limit"
    show "scan_once (Suc n) limit s \<noteq> Inl RecursionError"
    proof (rule scan_once_step_limit)
      fix limit' pairs and s' :: string
      assume "length s' < length s" and "length s' \<le> limit'"
      with b show "parse_object n limit' pairs s' \<noteq> Inl RecursionError"
        by (intro obj) simp_all
    next
      fix limit' vals and s' :: string
      assume "length s' < length s" and "length s' \<le> limit'"
      with b show "parse_array n limit' vals s' \<noteq> Inl RecursionError"
        by (intro arr) simp_all
    next
      from b show "length s \<le> limit" by simp
    qed
  next
    fix limit pairs and s :: string
    assume b: "2 * length s + 1 < Suc n \<and> length s \<le> limit"
    show "parse_object (Suc n) limit pairs s \<noteq> Inl RecursionError"
    proof (rule parse_object_step_limit)
      fix s' :: string
      assume "length s' < length s"
      with b show "scan_once n limit s' \<noteq> Inl RecursionError"
        by (intro scan) simp_all
    next
      fix pairs and s' :: string
      assume "length s' < length s"
      with b show "parse_object n limit pairs s' \<noteq> Inl RecursionError"
        by (intro obj) simp_all
    qed
  next
    fix limit vals and s :: string
    assume b: "2 * length s + 1 < Suc n \<and> length s \<le> limit"
    show "parse_array (Suc n) limit vals s \<noteq> Inl RecursionError"
    proof (rule parse_array_step_limit)
      from b show "scan_once n limit s \<noteq> Inl RecursionError"
        by (intro scan) simp_all
    next
      fix vals and s' :: string
      assume "length s' < length s"
      with b show "parse_array n limit vals s' \<noteq> Inl RecursionError"
        by (intro arr) simp_all
    qed
  qed
qed

text \<open>
  The fuel of \<open>json_loads\<close> never runs out: under a limit of at least the length of the
  text no \<^verbatim>\<open>RecursionError\<close> is raised.
\<close>

lemma json_loads_no_RecursionError:
  assumes "length s \<le> limit"
  shows "json_loads limit s \<noteq> Inl RecursionError"
proof -
  have "2 * length (skip_ws s) < 2 * length s + 2" and "length (skip_ws s) \<le> limit"
    using length_skip_ws[of s] assms by simp_all
  then have "scan_once (2 * length s + 2) limit (skip_ws s) \<noteq> Inl RecursionError"
    using parser_limit by blast
  then show ?thesis
    by (auto simp: json_loads_def split: sum.splits)
qed

text \<open>The decoder on some texts.\<close>

lemma json_loads_unclosed: "json_loads 1000 ''['' = Inl JSONDecodeError"
  by code_simp

lemma json_loads_nested:
  "json_loads 3 ''[[[[]]]]'' = Inl RecursionError
   \<and> json_loads 4 ''[[[[]]]]'' = Inr (JList [JList [JList [JList []]]])"
  by (intro conjI; code_simp)

text \<open>An integer literal of more digits than the interpreter converts.\<close>

lemma match_number_long:
  assumes "\<forall>c\<in>set ds. is_digit c" and "max_str_digits < length ds" and "\<not> startswith ds ''0''"
  shows "match_number ds = Inl ValueError"
proof -
  from assms(2) obtain c cs where ds: "ds = c # cs" by (cases ds) auto
  with assms(1) have "is_digit c" by simp
  then have "c \<noteq> CHR ''-''" by (auto simp: is_digit_def)
  then have sign: "number_sign ds = []" by (simp add: number_sign_def ds)
  have int: "number_integer ds = ds"
    using assms(1,3) by (simp add: number_integer_def takeWhile_eq_all_conv)
  from assms(2) have "ds \<noteq> []" by auto
  with assms(2) show ?thesis
    by (simp add: match_number_def Let_def sign int number_frac_def number_exp_def)
qed

end
